theory Spec2Isabelle
  imports Complex_Main "HOL-Library.Sublist"
begin

section \<open>Data model (types/audio.ts)\<close>

text \<open>
  The four transcription statuses of \<^verbatim>\<open>AudioFile.status\<close> and
  \<^verbatim>\<open>TranscriptResponse.status\<close>:
  \<^verbatim>\<open>'uploaded' | 'processing' | 'completed' | 'failed'\<close>.
\<close>

datatype status = Uploaded | Processing | Completed | Failed

datatype confidence = Medium | High

text \<open>
  \<^verbatim>\<open>interface TranscriptWord { word; start; end; deceptionConfidence? }\<close>.
  JavaScript numbers are modelled as reals: the code only compares times with
  \<^verbatim>\<open>>=\<close> and \<^verbatim>\<open><\<close>, which on finite numbers is the order of
  the reals (NaN is outside the model). A JavaScript string is the list of its
  UTF-16 code units; \<open>utf16\<close> gives the code units of an ASCII literal.
  Identifiers, titles and messages, which the code only copies or tests for
  emptiness, stay \<open>string\<close>.
\<close>

type_synonym jsstring = "int list"

definition utf16 :: "string \<Rightarrow> jsstring" where
  "utf16 s = map of_char s"

record TranscriptWord =
  word :: jsstring
  start :: real
  end_time :: real
  deceptionConfidence :: "confidence option"

section \<open>Time index (components/TranscriptView.tsx, lines 25-27)\<close>

text \<open>
  \<^verbatim>\<open>Array.prototype.findIndex\<close>: the first index whose element satisfies the
  predicate (which also receives the index), and \<open>-1\<close> when there is none.
\<close>

fun findIndex_from :: "('a \<Rightarrow> nat \<Rightarrow> bool) \<Rightarrow> 'a list \<Rightarrow> nat \<Rightarrow> int" where
  "findIndex_from p [] i = - 1"
| "findIndex_from p (x # xs) i = (if p x i then int i else findIndex_from p xs (Suc i))"

definition findIndex :: "('a \<Rightarrow> nat \<Rightarrow> bool) \<Rightarrow> 'a list \<Rightarrow> int" where
  "findIndex p xs = findIndex_from p xs 0"

text \<open>
  \<^verbatim>\<open>
  const activeWordIndex = words.findIndex(
    (word, i) => currentTime >= word.start &&
                 (i === words.length - 1 || currentTime < words[i + 1].start));
  \<close>
  The read \<^verbatim>\<open>words[i + 1]\<close> is only evaluated when \<open>i\<close> is not the last
  index, so it is always in range.
\<close>

definition activeWordIndex :: "TranscriptWord list \<Rightarrow> real \<Rightarrow> int" where
  "activeWordIndex words currentTime =
     findIndex (\<lambda>w i. currentTime \<ge> start w \<and>
                  (int i = int (length words) - 1 \<or> currentTime < start (words ! (i + 1))))
               words"

text \<open>
  The window contract of the specification (section 4.1), written from its words:
  index \<open>i\<close> is active at \<open>time\<close> when \<open>tokens[i].start <= time\<close> and
  \<open>i\<close> is the last index or \<open>time < tokens[i+1].start\<close>.
\<close>

definition spec_window_contract :: "TranscriptWord list \<Rightarrow> real \<Rightarrow> nat \<Rightarrow> bool" where
  "spec_window_contract tokens time i \<longleftrightarrow>
     i < length tokens \<and> start (tokens ! i) \<le> time \<and>
     (Suc i = length tokens \<or> time < start (tokens ! Suc i))"

text \<open>Example tokens: the twelve tokens \<open>a\<close> .. \<open>l\<close> of the specification's
  section 8, at one-second increments from 0.\<close>

definition tok :: "string \<Rightarrow> real \<Rightarrow> TranscriptWord" where
  "tok s t = \<lparr>word = utf16 s, start = t, end_time = t + 1, deceptionConfidence = None\<rparr>"

definition example_tokens :: "TranscriptWord list" where
  "example_tokens =
     [tok ''a'' 0, tok ''b'' 1, tok ''c'' 2, tok ''d'' 3, tok ''e'' 4, tok ''f'' 5,
      tok ''g'' 6, tok ''h'' 7, tok ''i'' 8, tok ''j'' 9, tok ''k'' 10, tok ''l'' 11]"

section \<open>Transcript search (the search page's performSearch)\<close>

text \<open>
  \<^verbatim>\<open>interface Transcript { id; text; words; createdAt }\<close> and
  \<^verbatim>\<open>interface TranscriptResponse { audio_id; status; transcript: Transcript | null }\<close>.
\<close>

record Transcript =
  transcript_id :: string
  transcript_text :: jsstring
  words :: "TranscriptWord list"
  createdAt :: string

record TranscriptResponse =
  audio_id :: string
  resp_status :: status
  transcript :: "Transcript option"

text \<open>
  \<^verbatim>\<open>interface AudioFile\<close>, without \<open>filename\<close> and \<open>uploadedAt\<close>, which
  the modelled functions only copy; \<open>status\<close> is optional in the source.
\<close>

record AudioFile =
  file_id :: string
  title :: string
  url :: string
  duration :: "real option"
  file_size :: nat
  file_status :: "status option"

text \<open>A rejected request (axios error): the fields the handlers read.\<close>

record api_error =
  detail :: "string option"
  message :: "string option"

text \<open>The search page's match and result objects.\<close>

record SearchMatch =
  match_text :: jsstring
  startTime :: real

record SearchResult =
  audioId :: string
  audioTitle :: string
  audioUrl :: string
  audioDuration :: "real option"
  audioSize :: nat
  matches :: "SearchMatch list"

text \<open>
  \<^verbatim>\<open>String.prototype.trim\<close> removes from both ends the code units that are
  white space or line terminators in ECMAScript: U+0009 to U+000D, U+0020,
  U+00A0, U+1680, U+2000 to U+200A, U+2028, U+2029, U+202F, U+205F, U+3000 and
  U+FEFF.
\<close>

definition is_space :: "int \<Rightarrow> bool" where
  "is_space c \<longleftrightarrow>
     (9 \<le> c \<and> c \<le> 13) \<or> c = 32 \<or> c = 160 \<or> c = 5760 \<or> (8192 \<le> c \<and> c \<le> 8202) \<or>
     c = 8232 \<or> c = 8233 \<or> c = 8239 \<or> c = 8287 \<or> c = 12288 \<or> c = 65279"

definition trim :: "jsstring \<Rightarrow> jsstring" where
  "trim s = rev (dropWhile is_space (rev (dropWhile is_space s)))"

text \<open>
  \<^verbatim>\<open>String.prototype.includes\<close>: the argument occurs as a contiguous run of
  code units.
\<close>

definition str_includes :: "jsstring \<Rightarrow> jsstring \<Rightarrow> bool" where
  "str_includes s q \<longleftrightarrow> sublist q s"

text \<open>
  \<^verbatim>\<open>String.prototype.toLowerCase\<close> is the platform's Unicode case conversion.
  The search functions take it as the parameter \<open>toLowerCase\<close>, so that what is
  proved of them holds for the platform's function on every string. On strings
  of ASCII code units the platform's function is \<open>ascii_toLowerCase\<close>, which
  is used to evaluate examples.
\<close>

definition ascii_toLowerCase :: "jsstring \<Rightarrow> jsstring" where
  "ascii_toLowerCase s = map (\<lambda>c. if 65 \<le> c \<and> c \<le> 90 then c + 32 else c) s"

text \<open>\<^verbatim>\<open>Array.prototype.join(' ')\<close>.\<close>

fun join_space :: "jsstring list \<Rightarrow> jsstring" where
  "join_space [] = []"
| "join_space [x] = x"
| "join_space (x # y # ys) = x @ [32] @ join_space (y # ys)"

text \<open>
  The inner loop
  \<^verbatim>\<open>for (let j = Math.max(0, i - 5); j < Math.min(words.length, i + 6); j++)
    contextWindow.push(words[j].word);\<close>
  Every \<open>j\<close> it reads is below \<open>words.length\<close>.
\<close>

definition window_start :: "nat \<Rightarrow> nat" where
  "window_start i = nat (max 0 (int i - 5))"

definition contextWindow :: "TranscriptWord list \<Rightarrow> nat \<Rightarrow> jsstring list" where
  "contextWindow ws i =
     map (\<lambda>j. word (ws ! j)) [window_start i ..< min (length ws) (i + 6)]"

text \<open>
  The body of the outer loop at index \<open>i\<close>: it returns the value of \<open>i\<close> at the
  end of the body (after \<^verbatim>\<open>i += 5\<close> on a match) and the extended match list.
  \<^verbatim>\<open>
  const contextText = contextWindow.join(' ');
  if (contextText.toLowerCase().includes(query)) {
    const startWord = words[Math.max(0, i - 5)];
    matches.push({ text: contextText, startTime: startWord.start });
    i += 5;
  }
  \<close>
\<close>

definition scan_body ::
  "(jsstring \<Rightarrow> jsstring) \<Rightarrow> TranscriptWord list \<Rightarrow> jsstring \<Rightarrow> nat \<Rightarrow> SearchMatch list
     \<Rightarrow> nat \<times> SearchMatch list" where
  "scan_body toLowerCase ws query i ms =
     (let contextText = join_space (contextWindow ws i) in
      if str_includes (toLowerCase contextText) query
      then (let startWord = ws ! window_start i in
            (i + 5, ms @ [\<lparr>match_text = contextText, startTime = start startWord\<rparr>]))
      else (i, ms))"

text \<open>
  The outer loop \<^verbatim>\<open>for (let i = 0; i < words.length; i++) { body }\<close>: after
  the body the header's \<^verbatim>\<open>i++\<close> runs.
\<close>

function scan ::
  "(jsstring \<Rightarrow> jsstring) \<Rightarrow> TranscriptWord list \<Rightarrow> jsstring \<Rightarrow> nat \<Rightarrow> SearchMatch list
     \<Rightarrow> SearchMatch list" where
  "scan toLowerCase ws query i ms =
     (if i < length ws
      then scan toLowerCase ws query (fst (scan_body toLowerCase ws query i ms) + 1)
             (snd (scan_body toLowerCase ws query i ms))
      else ms)"
  by pat_completeness auto
termination
  by (relation "measure (\<lambda>(toLowerCase, ws, query, i, ms). length ws - i)")
     (auto simp: scan_body_def Let_def)

declare scan.simps [simp del]

text \<open>
  What performSearch does with one completed file once \<^verbatim>\<open>getTranscript\<close> has
  settled: a rejected request is skipped by the \<^verbatim>\<open>catch\<close>; a response that is
  not completed or carries no transcript adds nothing; otherwise the words are
  scanned and, when there is a match, one result with the first three matches is
  pushed. \<open>query\<close> is \<^verbatim>\<open>searchQuery.toLowerCase()\<close>.
\<close>

definition searchFile ::
  "(jsstring \<Rightarrow> jsstring) \<Rightarrow> jsstring \<Rightarrow> AudioFile \<Rightarrow> api_error + TranscriptResponse
     \<Rightarrow> SearchResult list" where
  "searchFile toLowerCase query file res =
     (case res of
        Inl err \<Rightarrow> []
      | Inr response \<Rightarrow>
          (case transcript response of
             None \<Rightarrow> []
           | Some tr \<Rightarrow>
               if resp_status response = Completed
               then (let ms = scan toLowerCase (words tr) query 0 [] in
                     if length ms > 0
                     then [\<lparr>audioId = file_id file, audioTitle = title file,
                            audioUrl = url file, audioDuration = duration file,
                            audioSize = file_size file, matches = take 3 ms\<rparr>]
                     else [])
               else []))"

text \<open>
  \<^verbatim>\<open>performSearch\<close>: \<open>None\<close> is the early return on a blank query (the
  displayed results are left as they are); otherwise the new value of
  \<open>searchResults\<close>. \<open>getTranscript\<close> gives the settled request for a file id.
\<close>

definition performSearch ::
  "(jsstring \<Rightarrow> jsstring) \<Rightarrow> jsstring \<Rightarrow> AudioFile list
     \<Rightarrow> (string \<Rightarrow> api_error + TranscriptResponse) \<Rightarrow> SearchResult list option" where
  "performSearch toLowerCase searchQuery files getTranscript =
     (if trim searchQuery = [] then None
      else
        (let completedFiles = filter (\<lambda>f. file_status f = Some Completed) files in
         Some (foldl (\<lambda>results file.
                        results @ searchFile toLowerCase (toLowerCase searchQuery) file
                                    (getTranscript (file_id file)))
                     [] completedFiles)))"

text \<open>
  The context window in the specification's words (section 4.4): the tokens from
  \<open>max(0, i-5)\<close> to \<open>min(len-1, i+5)\<close> inclusive.
\<close>

definition spec_window :: "TranscriptWord list \<Rightarrow> nat \<Rightarrow> TranscriptWord list" where
  "spec_window tokens i =
     map (\<lambda>j. tokens ! j)
       [nat (max 0 (int i - 5)) ..< Suc (nat (min (int (length tokens) - 1) (int i + 5)))]"

text \<open>
  Example inputs for the search: twelve tokens \<open>x\<close>; one completed file whose
  transcript is the twelve tokens \<open>a\<close> .. \<open>l\<close>; and three tokens in mixed case.
\<close>

definition repeated_tokens :: "TranscriptWord list" where
  "repeated_tokens = map (\<lambda>k. tok ''x'' (real k)) [0..<12]"

definition example_file :: AudioFile where
  "example_file = \<lparr>file_id = ''f1'', title = ''Interview'', url = ''/f1.mp3'',
     duration = Some 12, file_size = 1000, file_status = Some Completed\<rparr>"

definition example_response :: TranscriptResponse where
  "example_response = \<lparr>audio_id = ''f1'', resp_status = Completed,
     transcript = Some \<lparr>transcript_id = ''t1'',
       transcript_text = utf16 ''a b c d e f g h i j k l'',
       words = example_tokens, createdAt = ''2024-01-01''\<rparr>\<rparr>"

definition example_match :: SearchMatch where
  "example_match = \<lparr>match_text = utf16 ''a b c d e f'', startTime = 0\<rparr>"

definition example_result :: SearchResult where
  "example_result = \<lparr>audioId = ''f1'', audioTitle = ''Interview'', audioUrl = ''/f1.mp3'',
     audioDuration = Some 12, audioSize = 1000, matches = [example_match]\<rparr>"

definition mixed_tokens :: "TranscriptWord list" where
  "mixed_tokens = [tok ''Hello'' 0, tok ''World'' 1, tok ''Again'' 2]"

section \<open>Transcript view (components/TranscriptView.tsx, lines 53-141)\<close>

text \<open>
  What the component returns: the "Transcribing audio" panel, the "Transcription
  failed" panel (with a retry button when \<open>onRetry\<close> is given), the "Preparing
  transcript" panel, or the transcript itself, whose words are rendered with the
  active word highlighted.
\<close>

datatype view =
  TranscribingPanel
  | FailedPanel bool
  | PreparingPanel
  | TranscriptPanel "TranscriptWord list" int

definition TranscriptView :: "TranscriptWord list \<Rightarrow> real \<Rightarrow> status \<Rightarrow> bool \<Rightarrow> view" where
  "TranscriptView ws currentTime st onRetry =
     (if st = Processing then TranscribingPanel
      else if st = Failed then FailedPanel onRetry
      else if st = Uploaded \<or> length ws = 0 then PreparingPanel
      else TranscriptPanel ws (activeWordIndex ws currentTime))"

text \<open>The words a view shows, and whether it offers the retry button.\<close>

fun rendered_words :: "view \<Rightarrow> TranscriptWord list" where
  "rendered_words (TranscriptPanel ws k) = ws"
| "rendered_words v = []"

fun offers_retry :: "view \<Rightarrow> bool" where
  "offers_retry (FailedPanel b) = b"
| "offers_retry v = False"

section \<open>Player page: transcript state and polling (PlayerPage)\<close>

text \<open>
  The state of the page that the transcript handlers read and write:
  \<open>audio\<close> (the id of the stored audio file, or null), \<open>transcriptWords\<close>,
  \<open>transcriptStatus\<close> and the ref \<open>pollIntervalRef\<close>; and the part of the
  runtime they act on: the table of active interval timers (handle and the
  \<open>audioId\<close> captured by the callback), the next fresh handle (handles are
  positive and never reused), the number of poll callbacks suspended at
  \<^verbatim>\<open>await loadTranscript(audioId)\<close>, the audio ids captured by the retry
  handlers suspended at \<^verbatim>\<open>await transcriptAPI.retryTranscription(audio.id)\<close>,
  and whether the component is mounted.
\<close>

record PlayerPage =
  audio :: "string option"
  transcriptWords :: "TranscriptWord list"
  transcriptStatus :: status
  pollIntervalRef :: "nat option"
  timers :: "(nat \<times> string) list"
  nextTimer :: nat
  inflight :: nat
  retrying :: "string list"
  mounted :: bool

text \<open>The state after \<^verbatim>\<open>useState([])\<close>, \<^verbatim>\<open>useState('uploaded')\<close> and
  \<^verbatim>\<open>useRef(null)\<close>.\<close>

definition initial_page :: PlayerPage where
  "initial_page = \<lparr>audio = None, transcriptWords = [], transcriptStatus = Uploaded,
     pollIntervalRef = None, timers = [], nextTimer = 1, inflight = 0, retrying = [],
     mounted = True\<rparr>"

text \<open>
  The state setters of \<^verbatim>\<open>useState\<close>: React applies the update while the
  component is mounted and drops it afterwards. The ref and the timers are not
  React state and stay writable.
\<close>

definition setAudio :: "string option \<Rightarrow> PlayerPage \<Rightarrow> PlayerPage" where
  "setAudio v s = (if mounted s then s\<lparr>audio := v\<rparr> else s)"

definition setTranscriptStatus :: "status \<Rightarrow> PlayerPage \<Rightarrow> PlayerPage" where
  "setTranscriptStatus v s = (if mounted s then s\<lparr>transcriptStatus := v\<rparr> else s)"

definition setTranscriptWords :: "TranscriptWord list \<Rightarrow> PlayerPage \<Rightarrow> PlayerPage" where
  "setTranscriptWords v s = (if mounted s then s\<lparr>transcriptWords := v\<rparr> else s)"

text \<open>
  \<^verbatim>\<open>setInterval\<close> registers a timer under a fresh handle; \<^verbatim>\<open>clearInterval\<close>
  removes the timer with the given handle and does nothing when there is none.
\<close>

definition setInterval :: "string \<Rightarrow> PlayerPage \<Rightarrow> nat \<times> PlayerPage" where
  "setInterval aid s =
     (nextTimer s, s\<lparr>timers := timers s @ [(nextTimer s, aid)],
                     nextTimer := Suc (nextTimer s)\<rparr>)"

definition clearInterval :: "nat \<Rightarrow> PlayerPage \<Rightarrow> PlayerPage" where
  "clearInterval h s = s\<lparr>timers := filter (\<lambda>t. fst t \<noteq> h) (timers s)\<rparr>"

definition handles :: "PlayerPage \<Rightarrow> nat set" where
  "handles s = fst ` set (timers s)"

text \<open>
  \<^verbatim>\<open>loadTranscript\<close> from the point where \<^verbatim>\<open>getTranscript\<close> has settled
  (lines 145-153); it returns the status, or null when the request was rejected.
  \<^verbatim>\<open>
  setTranscriptStatus(response.status);
  if (response.transcript) { setTranscriptWords(response.transcript.words); }
  return response.status;
  \<close>
\<close>

definition loadTranscript ::
  "api_error + TranscriptResponse \<Rightarrow> PlayerPage \<Rightarrow> status option \<times> PlayerPage" where
  "loadTranscript res s =
     (case res of
        Inl err \<Rightarrow> (None, s)
      | Inr response \<Rightarrow>
          (let s1 = setTranscriptStatus (resp_status response) s;
               s2 = (case transcript response of
                       Some tr \<Rightarrow> setTranscriptWords (words tr) s1
                     | None \<Rightarrow> s1)
           in (Some (resp_status response), s2)))"

text \<open>
  \<^verbatim>\<open>startPolling\<close> (lines 157-171): clear the timer in the ref, if any, and
  store the handle of a new 3000 ms interval timer in the ref.
\<close>

definition startPolling :: "string \<Rightarrow> PlayerPage \<Rightarrow> PlayerPage" where
  "startPolling aid s =
     (let s1 = (case pollIntervalRef s of Some h \<Rightarrow> clearInterval h s | None \<Rightarrow> s);
          (h, s2) = setInterval aid s1
      in s2\<lparr>pollIntervalRef := Some h\<rparr>)"

text \<open>
  The interval callback, split at its \<^verbatim>\<open>await\<close>. When timer \<open>h\<close> fires the
  callback issues the status request and is suspended; a cleared timer does not
  fire. When the request settles the callback resumes:
  \<^verbatim>\<open>
  const status = await loadTranscript(audioId);
  if (status === 'completed' || status === 'failed') {
    if (pollIntervalRef.current) {
      clearInterval(pollIntervalRef.current);
      pollIntervalRef.current = null;
    }
  }
  \<close>
\<close>

definition tick_fire :: "nat \<Rightarrow> PlayerPage \<Rightarrow> PlayerPage" where
  "tick_fire h s = (if h \<in> handles s then s\<lparr>inflight := Suc (inflight s)\<rparr> else s)"

definition tick_resume :: "api_error + TranscriptResponse \<Rightarrow> PlayerPage \<Rightarrow> PlayerPage" where
  "tick_resume res s =
     (let (st, s1) = loadTranscript res s in
      if st = Some Completed \<or> st = Some Failed
      then (case pollIntervalRef s1 of
              Some h \<Rightarrow> (clearInterval h s1)\<lparr>pollIntervalRef := None\<rparr>
            | None \<Rightarrow> s1)
      else s1)"

text \<open>
  The end of \<^verbatim>\<open>loadAudioFile\<close> (lines 192-203), for the audio id that
  \<^verbatim>\<open>getAudio\<close> returned:
  \<^verbatim>\<open>
  setAudio({ id: freshAudio.id, ... });
  const status = await loadTranscript(freshAudio.id);
  if (status === 'uploaded' || status === 'processing') { startPolling(freshAudio.id); }
  \<close>
\<close>

definition loadAudioFile :: "string \<Rightarrow> api_error + TranscriptResponse \<Rightarrow> PlayerPage \<Rightarrow> PlayerPage" where
  "loadAudioFile aid res s =
     (let (st, s1) = loadTranscript res (setAudio (Some aid) s) in
      if st = Some Uploaded \<or> st = Some Processing then startPolling aid s1 else s1)"

text \<open>
  \<^verbatim>\<open>handleRetryTranscription\<close> (lines 222-233), split at its \<^verbatim>\<open>await\<close>.
  \<open>retry_click\<close> is the part before it: without an audio file the handler
  returns, otherwise it issues the retry request and is suspended holding
  \<open>audio.id\<close>. \<open>handleRetryTranscription\<close> is the part after it, for the
  captured id and the settled request; it does not test the status.
  \<^verbatim>\<open>
  if (!audio) return;
  try {
    await transcriptAPI.retryTranscription(audio.id);
    setTranscriptStatus('processing'); setTranscriptWords([]); startPolling(audio.id);
  } catch { }
  \<close>
\<close>

definition retry_click :: "PlayerPage \<Rightarrow> PlayerPage" where
  "retry_click s =
     (case audio s of None \<Rightarrow> s | Some aid \<Rightarrow> s\<lparr>retrying := retrying s @ [aid]\<rparr>)"

definition handleRetryTranscription :: "string \<Rightarrow> api_error + unit \<Rightarrow> PlayerPage \<Rightarrow> PlayerPage" where
  "handleRetryTranscription aid res s =
     (case res of
        Inl err \<Rightarrow> s
      | Inr ok \<Rightarrow> startPolling aid (setTranscriptWords [] (setTranscriptStatus Processing s)))"

text \<open>
  The cleanup of the unmount effect (lines 239-245):
  \<^verbatim>\<open>if (pollIntervalRef.current) { clearInterval(pollIntervalRef.current); }\<close>
  On unmount React runs it and the component is no longer mounted.
\<close>

definition cleanup :: "PlayerPage \<Rightarrow> PlayerPage" where
  "cleanup s = (case pollIntervalRef s of Some h \<Rightarrow> clearInterval h s | None \<Rightarrow> s)"

definition unmount :: "PlayerPage \<Rightarrow> PlayerPage" where
  "unmount s = cleanup (s\<lparr>mounted := False\<rparr>)"

text \<open>What the page passes to TranscriptView (lines 326-332).\<close>

definition render :: "PlayerPage \<Rightarrow> real \<Rightarrow> view" where
  "render s currentTime = TranscriptView (transcriptWords s) currentTime (transcriptStatus s) True"

text \<open>
  The events of the page: the audio file has been loaded and its first status
  request settled; timer \<open>h\<close> fires; a suspended poll callback resumes with its
  settled request (only when one is in flight); the retry button is clicked,
  which is possible only while the mounted page shows it, that is, in the failed
  panel; the \<open>k\<close>-th suspended retry handler resumes with its settled request;
  the page is unmounted. Requests that settle after the unmount still resume
  their callbacks: the state updates are dropped, the ref and the timers are
  written as before.
\<close>

datatype event =
  Load string "api_error + TranscriptResponse"
  | Fire nat
  | Resolve "api_error + TranscriptResponse"
  | RetryClick
  | RetrySettle nat "api_error + unit"
  | Unmount

fun step :: "event \<Rightarrow> PlayerPage \<Rightarrow> PlayerPage" where
  "step (Load aid res) s = loadAudioFile aid res s"
| "step (Fire h) s = tick_fire h s"
| "step (Resolve res) s =
     (if 0 < inflight s then tick_resume res (s\<lparr>inflight := inflight s - 1\<rparr>) else s)"
| "step RetryClick s =
     (if mounted s \<and> offers_retry (render s 0) then retry_click s else s)"
| "step (RetrySettle k res) s =
     (if k < length (retrying s)
      then handleRetryTranscription (retrying s ! k) res
             (s\<lparr>retrying := take k (retrying s) @ drop (Suc k) (retrying s)\<rparr>)
      else s)"
| "step Unmount s = unmount s"

definition run :: "event list \<Rightarrow> PlayerPage \<Rightarrow> PlayerPage" where
  "run es s = foldl (\<lambda>s e. step e s) s es"

text \<open>The status carried by an event that is a settled status request.\<close>

fun observed_status :: "event \<Rightarrow> status option" where
  "observed_status (Load aid (Inr response)) = Some (resp_status response)"
| "observed_status (Resolve (Inr response)) = Some (resp_status response)"
| "observed_status e = None"

text \<open>
  The interface contract of section 6 for a status response: the transcript is
  present only when the status is completed.
\<close>

fun obeys_contract :: "event \<Rightarrow> bool" where
  "obeys_contract (Load aid (Inr response)) =
     (transcript response \<noteq> None \<longrightarrow> resp_status response = Completed)"
| "obeys_contract (Resolve (Inr response)) =
     (transcript response \<noteq> None \<longrightarrow> resp_status response = Completed)"
| "obeys_contract e = True"

text \<open>
  The transitions of the status state machine in the specification's words
  (sections 4.2 and 8): Uploaded to Processing, Processing to Completed or Failed,
  Failed to Processing; nothing else.
\<close>

fun spec_transition :: "status \<Rightarrow> status \<Rightarrow> bool" where
  "spec_transition Uploaded Processing = True"
| "spec_transition Processing Completed = True"
| "spec_transition Processing Failed = True"
| "spec_transition Failed Processing = True"
| "spec_transition a b = False"

text \<open>Example responses.\<close>

definition completed_response :: TranscriptResponse where
  "completed_response = \<lparr>audio_id = ''f1'', resp_status = Completed,
     transcript = Some \<lparr>transcript_id = ''t1'', transcript_text = utf16 ''a b'',
       words = [tok ''a'' 0, tok ''b'' 1], createdAt = ''2024-01-01''\<rparr>\<rparr>"

definition processing_response :: TranscriptResponse where
  "processing_response = \<lparr>audio_id = ''f1'', resp_status = Processing, transcript = None\<rparr>"

definition failed_response :: TranscriptResponse where
  "failed_response = \<lparr>audio_id = ''f1'', resp_status = Failed, transcript = None\<rparr>"

text \<open>
  Well-formed runtime state: every active timer is the one in the ref, and every
  handle in use is below the next fresh handle.
\<close>

definition wf_page :: "PlayerPage \<Rightarrow> bool" where
  "wf_page s \<longleftrightarrow>
     handles s \<subseteq> set_option (pollIntervalRef s) \<and>
     (\<forall>h \<in> handles s. h < nextTimer s) \<and>
     (\<forall>h. pollIntervalRef s = Some h \<longrightarrow> h < nextTimer s)"

fun shows_transcript :: "view \<Rightarrow> bool" where
  "shows_transcript (TranscriptPanel ws k) = True"
| "shows_transcript v = False"

text \<open>
  Example pages.
  \<open>firing_page\<close>: the first status is processing, so polling starts with timer
  1, and the timer has fired once.
  \<open>stale_page\<close>: the timer has fired twice before either request settled, and
  one of the two requests has settled with a completed transcript.
  \<open>failed_page\<close>: the first status is failed.
  \<open>words_failed_page\<close>: a page that holds words and then observes failed.
  \<open>unmounted_page\<close>: polling was started and the page unmounted.
  \<open>double_retry_page\<close>: on a failed page the retry button is clicked twice; the
  first retry succeeds and its poll observes completed while the second retry
  request is still in flight.
\<close>

definition firing_page :: PlayerPage where
  "firing_page = run [Load ''f1'' (Inr processing_response), Fire 1] initial_page"

definition stale_page :: PlayerPage where
  "stale_page = run [Load ''f1'' (Inr processing_response), Fire 1, Fire 1,
                     Resolve (Inr completed_response)] initial_page"

definition failed_page :: PlayerPage where
  "failed_page = run [Load ''f1'' (Inr failed_response)] initial_page"

definition words_failed_page :: PlayerPage where
  "words_failed_page = run [Load ''f1'' (Inr processing_response), Fire 1, Fire 1,
     Resolve (Inr completed_response), Resolve (Inr failed_response)] initial_page"

definition unmounted_page :: PlayerPage where
  "unmounted_page = run [Load ''f1'' (Inr processing_response), Unmount] initial_page"

definition double_retry_page :: PlayerPage where
  "double_retry_page = run [Load ''f1'' (Inr failed_response), RetryClick, RetryClick,
     RetrySettle 0 (Inr ()), Fire 1, Resolve (Inr completed_response)] initial_page"

section \<open>Upload (app/page.tsx, handleFilesSelected)\<close>























section \<open>Facts about findIndex\<close>

lemma findIndex_from_none:
  "(\<And>j. j < length xs \<Longrightarrow> \<not> p (xs ! j) (k + j)) \<Longrightarrow> findIndex_from p xs k = - 1"
proof (induction xs arbitrary: k)
  case Nil
  show ?case by simp
next
  case (Cons x xs)
  have "\<not> p x k" using Cons.prems [of 0] by simp
  moreover have "findIndex_from p xs (Suc k) = - 1"
  proof (rule Cons.IH)
    fix j assume "j < length xs"
    then show "\<not> p (xs ! j) (Suc k + j)" using Cons.prems [of "Suc j"] by simp
  qed
  ultimately show ?case by simp
qed

lemma findIndex_from_first:
  "j < length xs \<Longrightarrow> p (xs ! j) (k + j) \<Longrightarrow> (\<And>l. l < j \<Longrightarrow> \<not> p (xs ! l) (k + l))
     \<Longrightarrow> findIndex_from p xs k = int (k + j)"
proof (induction xs arbitrary: k j)
  case Nil
  then show ?case by simp
next
  case (Cons x xs)
  show ?case
  proof (cases j)
    case 0
    with Cons.prems show ?thesis by simp
  next
    case (Suc j')
    have nx: "\<not> p x k" using Cons.prems(3) [of 0] Suc by simp
    have "findIndex_from p xs (Suc k) = int (Suc k + j')"
    proof (rule Cons.IH)
      show "j' < length xs" using Cons.prems(1) Suc by simp
      show "p (xs ! j') (Suc k + j')" using Cons.prems(2) Suc by simp
      fix l assume "l < j'"
      then show "\<not> p (xs ! l) (Suc k + l)" using Cons.prems(3) [of "Suc l"] Suc by simp
    qed
    with nx Suc show ?thesis by simp
  qed
qed

lemma findIndex_from_range:
  "findIndex_from p xs k = - 1 \<or> int k \<le> findIndex_from p xs k"
proof (induction xs arbitrary: k)
  case Nil
  show ?case by simp
next
  case (Cons x xs)
  show ?case using Cons.IH [of "Suc k"] by auto
qed

lemma sorted_start_mono:
  "sorted (map start ws) \<Longrightarrow> i \<le> j \<Longrightarrow> j < length ws \<Longrightarrow> start (ws ! i) \<le> start (ws ! j)"
  using sorted_nth_mono [of "map start ws" i j] by simp

lemma contract_unique:
  assumes srt: "sorted (map start ws)"
    and i: "spec_window_contract ws t i" and j: "spec_window_contract ws t j"
  shows "i = j"
proof -
  have less: False if a: "spec_window_contract ws t a" and b: "spec_window_contract ws t b"
    and ab: "a < b" for a b
  proof -
    have "Suc a \<noteq> length ws" using ab b by (auto simp: spec_window_contract_def)
    then have "t < start (ws ! Suc a)" using a by (auto simp: spec_window_contract_def)
    moreover have "start (ws ! Suc a) \<le> start (ws ! b)"
      using sorted_start_mono [OF srt, of "Suc a" b] ab b by (auto simp: spec_window_contract_def)
    moreover have "start (ws ! b) \<le> t" using b by (auto simp: spec_window_contract_def)
    ultimately show False by linarith
  qed
  show ?thesis using less [OF i j] less [OF j i] by (cases i j rule: linorder_cases) auto
qed

lemma contract_exists:
  assumes ne: "ws \<noteq> []" and t0: "start (ws ! 0) \<le> t"
  shows "\<exists>i. spec_window_contract ws t i"
proof -
  let ?S = "{i. i < length ws \<and> start (ws ! i) \<le> t}"
  have fin: "finite ?S" by simp
  have "0 \<in> ?S" using ne t0 by simp
  then have nonempty: "?S \<noteq> {}" by blast
  define m where "m = Max ?S"
  have m_in: "m \<in> ?S" unfolding m_def using Max_in [OF fin nonempty] .
  have "Suc m = length ws \<or> t < start (ws ! Suc m)"
  proof (rule ccontr)
    assume "\<not> ?thesis"
    then have "Suc m \<in> ?S" using m_in by auto
    then have "Suc m \<le> m" unfolding m_def using Max_ge [OF fin] by blast
    then show False by simp
  qed
  with m_in show ?thesis unfolding spec_window_contract_def by auto
qed

lemma activeWordIndex_first:
  assumes c: "spec_window_contract ws t i"
    and least: "\<And>l. l < i \<Longrightarrow> \<not> spec_window_contract ws t l"
  shows "activeWordIndex ws t = int i"
proof -
  let ?p = "\<lambda>w k. t \<ge> start w \<and> (int k = int (length ws) - 1 \<or> t < start (ws ! (k + 1)))"
  have eq: "?p (ws ! k) k \<longleftrightarrow> spec_window_contract ws t k" if "k < length ws" for k
    using that unfolding spec_window_contract_def by auto
  have "findIndex_from ?p ws 0 = int (0 + i)"
  proof (rule findIndex_from_first)
    show "i < length ws" using c by (simp add: spec_window_contract_def)
    show "?p (ws ! i) (0 + i)" using c eq [of i] by (simp add: spec_window_contract_def)
    fix l assume "l < i"
    moreover from this have "l < length ws" using c by (simp add: spec_window_contract_def)
    ultimately show "\<not> ?p (ws ! l) (0 + l)" using least [of l] eq [of l] by simp
  qed
  then show ?thesis by (simp add: activeWordIndex_def findIndex_def)
qed

section \<open>Claims about the time index\<close>

text \<open>
  Claim C5. For every non-empty token sequence sorted by non-decreasing start and
  every time at or after the first token's start, \<open>activeWordIndex\<close> returns an
  index that satisfies the window contract, and it is the only index that does;
  on the empty sequence it returns \<open>-1\<close> (none) for every time.
\<close>

theorem locate_unique_window:
  "activeWordIndex [] t = - 1 \<and>
   (ws \<noteq> [] \<longrightarrow> sorted (map start ws) \<longrightarrow> start (ws ! 0) \<le> t \<longrightarrow>
      (\<exists>i. activeWordIndex ws t = int i \<and> spec_window_contract ws t i \<and>
           (\<forall>j. spec_window_contract ws t j \<longrightarrow> j = i)))"
proof (intro conjI impI)
  show "activeWordIndex [] t = - 1" by (simp add: activeWordIndex_def findIndex_def)
next
  assume ne: "ws \<noteq> []" and srt: "sorted (map start ws)" and t0: "start (ws ! 0) \<le> t"
  obtain i where i: "spec_window_contract ws t i" using contract_exists [OF ne t0] by blast
  have uniq: "\<forall>j. spec_window_contract ws t j \<longrightarrow> j = i"
    using contract_unique [OF srt _ i] by blast
  have "activeWordIndex ws t = int i"
  proof (rule activeWordIndex_first [OF i])
    fix l assume "l < i"
    then show "\<not> spec_window_contract ws t l" using uniq by auto
  qed
  with i uniq show "\<exists>i. activeWordIndex ws t = int i \<and> spec_window_contract ws t i \<and>
           (\<forall>j. spec_window_contract ws t j \<longrightarrow> j = i)" by blast
qed

theorem locate_unique_window_witness:
  "example_tokens \<noteq> [] \<and> sorted (map start example_tokens) \<and>
   start (example_tokens ! 0) \<le> 5.2 \<and>
   activeWordIndex example_tokens 5.2 = 5 \<and> spec_window_contract example_tokens 5.2 5"
proof -
  have h: "example_tokens \<noteq> [] \<and> sorted (map start example_tokens) \<and>
      start (example_tokens ! 0) \<le> 5.2"
    by (simp add: example_tokens_def tok_def)
  have c: "spec_window_contract example_tokens 5.2 5"
    by (simp add: spec_window_contract_def example_tokens_def tok_def)
  from locate_unique_window [where ws = example_tokens and t = "5.2"] h c
  have "activeWordIndex example_tokens 5.2 = 5" by auto
  with h c show ?thesis by simp
qed

text \<open>
  Claim C1, as stated: for every non-empty token sequence and every time strictly
  before the first token's start, the active-word index is 0. The code's predicate
  requires \<open>currentTime >= word.start\<close>, so before the first token no word is
  active: one token starting at 1 and time 0 give \<open>-1\<close>.
\<close>

theorem locate_before_first_counterexample:
  "[tok ''a'' 1] \<noteq> [] \<and> (0::real) < start ([tok ''a'' 1] ! 0) \<and>
   activeWordIndex [tok ''a'' 1] 0 = - 1 \<and> activeWordIndex [tok ''a'' 1] 0 \<noteq> 0"
  by (simp add: activeWordIndex_def findIndex_def tok_def)

text \<open>
  Claim C1, amended: for every non-empty token sequence and every time strictly
  before the first token's start (time 0 and negative times included), the
  active-word index is never 0; when the sequence is sorted by non-decreasing
  start it is \<open>-1\<close>, that is, no word is active.
\<close>

theorem locate_before_first_none:
  assumes "ws \<noteq> []" and "t < start (ws ! 0)"
  shows "activeWordIndex ws t \<noteq> 0 \<and>
         (sorted (map start ws) \<longrightarrow> activeWordIndex ws t = - 1)"
proof
  let ?p = "\<lambda>w k. t \<ge> start w \<and> (int k = int (length ws) - 1 \<or> t < start (ws ! (k + 1)))"
  obtain x xs where ws: "ws = x # xs" using assms(1) by (cases ws) auto
  have np: "\<not> start x \<le> t" using assms(2) ws by simp
  have step: "findIndex_from ?p (x # xs) 0 = findIndex_from ?p xs (Suc 0)"
    using np by simp
  have "activeWordIndex ws t = findIndex_from ?p ws 0"
    by (simp add: activeWordIndex_def findIndex_def)
  also have "\<dots> = findIndex_from ?p (x # xs) 0" using ws by simp
  also have "\<dots> = findIndex_from ?p xs (Suc 0)" by (rule step)
  finally have "activeWordIndex ws t = findIndex_from ?p xs (Suc 0)" .
  moreover have "findIndex_from ?p xs (Suc 0) \<noteq> 0"
    using findIndex_from_range [of ?p xs "Suc 0"] by auto
  ultimately show "activeWordIndex ws t \<noteq> 0" by simp
next
  show "sorted (map start ws) \<longrightarrow> activeWordIndex ws t = - 1"
  proof
    assume srt: "sorted (map start ws)"
    let ?p = "\<lambda>w k. t \<ge> start w \<and> (int k = int (length ws) - 1 \<or> t < start (ws ! (k + 1)))"
    have "findIndex_from ?p ws 0 = - 1"
    proof (rule findIndex_from_none)
      fix j assume "j < length ws"
      then have "start (ws ! 0) \<le> start (ws ! j)" using sorted_start_mono [OF srt, of 0 j] by simp
      then show "\<not> ?p (ws ! j) (0 + j)" using assms(2) by simp
    qed
    then show "activeWordIndex ws t = - 1" by (simp add: activeWordIndex_def findIndex_def)
  qed
qed

theorem locate_before_first_none_witness:
  "example_tokens \<noteq> [] \<and> (-1::real) < start (example_tokens ! 0) \<and>
   sorted (map start example_tokens) \<and> activeWordIndex example_tokens (-1) = - 1"
proof -
  have h1: "example_tokens \<noteq> []" by (simp add: example_tokens_def)
  have h2: "(-1::real) < start (example_tokens ! 0)" by (simp add: example_tokens_def tok_def)
  have h3: "sorted (map start example_tokens)" by (simp add: example_tokens_def tok_def)
  from locate_before_first_none [OF h1 h2] h3
  have "activeWordIndex example_tokens (-1) = - 1" by blast
  with h1 h2 h3 show ?thesis by simp
qed

section \<open>Facts about the search scan\<close>

lemma scan_unfold:
  "i < length ws \<Longrightarrow>
   scan toLowerCase ws q i ms =
     (if str_includes (toLowerCase (join_space (contextWindow ws i))) q
      then scan toLowerCase ws q (i + 6)
             (ms @ [\<lparr>match_text = join_space (contextWindow ws i),
                      startTime = start (ws ! window_start i)\<rparr>])
      else scan toLowerCase ws q (i + 1) ms)"
  by (subst scan.simps) (simp add: scan_body_def Let_def add.commute)

lemma scan_done: "\<not> i < length ws \<Longrightarrow> scan toLowerCase ws q i ms = ms"
  by (subst scan.simps) simp

lemma scan_members:
  "m \<in> set (scan toLowerCase ws q i ms) \<Longrightarrow>
     m \<in> set ms \<or>
     (\<exists>k. i \<le> k \<and> k < length ws \<and>
          str_includes (toLowerCase (join_space (contextWindow ws k))) q \<and>
          m = \<lparr>match_text = join_space (contextWindow ws k),
               startTime = start (ws ! window_start k)\<rparr>)"
proof (induction toLowerCase ws q i ms rule: scan.induct)
  case (1 toLowerCase ws q i ms)
  show ?case
  proof (cases "i < length ws")
    case False
    with "1.prems" show ?thesis by (simp add: scan_done)
  next
    case True
    let ?hit = "str_includes (toLowerCase (join_space (contextWindow ws i))) q"
    let ?m = "\<lparr>match_text = join_space (contextWindow ws i),
               startTime = start (ws ! window_start i)\<rparr>"
    show ?thesis
    proof (cases ?hit)
      case hit: True
      have body: "scan_body toLowerCase ws q i ms = (i + 5, ms @ [?m])"
        using hit by (simp add: scan_body_def Let_def)
      have "m \<in> set (scan toLowerCase ws q (i + 6) (ms @ [?m]))"
        using "1.prems" True hit by (simp add: scan_unfold)
      then have "m \<in> set (scan toLowerCase ws q (fst (scan_body toLowerCase ws q i ms) + 1) (snd (scan_body toLowerCase ws q i ms)))"
        by (simp add: body add.commute)
      from "1.IH" [OF True this]
      have "m \<in> set (ms @ [?m]) \<or>
        (\<exists>k. i + 6 \<le> k \<and> k < length ws \<and>
          str_includes (toLowerCase (join_space (contextWindow ws k))) q \<and>
          m = \<lparr>match_text = join_space (contextWindow ws k),
               startTime = start (ws ! window_start k)\<rparr>)"
        by (simp add: body add.commute)
      then show ?thesis
      proof (elim disjE exE conjE)
        assume "m \<in> set (ms @ [?m])"
        then consider "m \<in> set ms" | "m = ?m" by auto
        then show ?thesis
        proof cases
          case 1
          then show ?thesis by simp
        next
          case 2
          with True hit show ?thesis by blast
        qed
      next
        fix k assume "i + 6 \<le> k" "k < length ws"
          "str_includes (toLowerCase (join_space (contextWindow ws k))) q"
          "m = \<lparr>match_text = join_space (contextWindow ws k),
               startTime = start (ws ! window_start k)\<rparr>"
        moreover from this have "i \<le> k" by simp
        ultimately show ?thesis by blast
      qed
    next
      case miss: False
      have body: "scan_body toLowerCase ws q i ms = (i, ms)"
        using miss by (simp add: scan_body_def Let_def)
      have "m \<in> set (scan toLowerCase ws q (i + 1) ms)"
        using "1.prems" True miss by (simp add: scan_unfold)
      then have "m \<in> set (scan toLowerCase ws q (fst (scan_body toLowerCase ws q i ms) + 1) (snd (scan_body toLowerCase ws q i ms)))"
        by (simp add: body)
      from "1.IH" [OF True this]
      have "m \<in> set ms \<or>
        (\<exists>k. i + 1 \<le> k \<and> k < length ws \<and>
          str_includes (toLowerCase (join_space (contextWindow ws k))) q \<and>
          m = \<lparr>match_text = join_space (contextWindow ws k),
               startTime = start (ws ! window_start k)\<rparr>)"
        by (simp add: body)
      then show ?thesis
      proof (elim disjE exE conjE)
        assume "m \<in> set ms"
        then show ?thesis by simp
      next
        fix k assume "i + 1 \<le> k" "k < length ws"
          "str_includes (toLowerCase (join_space (contextWindow ws k))) q"
          "m = \<lparr>match_text = join_space (contextWindow ws k),
               startTime = start (ws ! window_start k)\<rparr>"
        moreover from this have "i \<le> k" by simp
        ultimately show ?thesis by blast
      qed
    qed
  qed
qed

lemma contextWindow_spec:
  assumes "i < length ws"
  shows "contextWindow ws i = map word (spec_window ws i)"
proof -
  have "Suc (nat (min (int (length ws) - 1) (int i + 5))) = min (length ws) (i + 6)"
    using assms by (simp add: min_def) linarith
  then show ?thesis
    by (simp add: contextWindow_def spec_window_def window_start_def)
qed

lemma foldl_append_members:
  "r \<in> set (foldl (\<lambda>acc x. acc @ g x) init xs) \<longleftrightarrow>
     r \<in> set init \<or> (\<exists>x \<in> set xs. r \<in> set (g x))"
  by (induction xs arbitrary: init) auto

lemma searchFile_members:
  assumes "r \<in> set (searchFile toLowerCase q file res)"
  shows "\<exists>response tr. res = Inr response \<and> transcript response = Some tr \<and>
           resp_status response = Completed \<and> audioId r = file_id file \<and>
           matches r = take 3 (scan toLowerCase (words tr) q 0 [])"
proof (cases res)
  case (Inl e)
  with assms show ?thesis by (simp add: searchFile_def)
next
  case (Inr response)
  show ?thesis
  proof (cases "transcript response")
    case None
    with assms Inr show ?thesis by (simp add: searchFile_def)
  next
    case (Some tr)
    with assms Inr show ?thesis
      by (auto simp: searchFile_def Let_def split: if_splits)
  qed
qed

lemma spec_window_size: "length (spec_window ws i) \<le> 11"
proof -
  have "Suc (nat (min (int (length ws) - 1) (int i + 5))) - nat (max 0 (int i - 5)) \<le> 11"
    by linarith
  then show ?thesis unfolding spec_window_def length_map length_upt .
qed

lemma scan_body_spec:
  assumes "i < length ws"
  shows "snd (scan_body toLowerCase ws q i ms) =
     (if str_includes (toLowerCase (join_space (map word (spec_window ws i)))) q
      then ms @ [\<lparr>match_text = join_space (map word (spec_window ws i)),
                  startTime = start (ws ! nat (max 0 (int i - 5)))\<rparr>]
      else ms)"
  using contextWindow_spec [OF assms]
  by (simp add: scan_body_def Let_def window_start_def)

lemma scan_match_spec:
  assumes "m \<in> set (scan toLowerCase ws q 0 [])"
  shows "\<exists>i. i < length ws \<and>
           match_text m = join_space (map word (spec_window ws i)) \<and>
           str_includes (toLowerCase (match_text m)) q \<and>
           startTime m = start (ws ! nat (max 0 (int i - 5)))"
proof -
  from scan_members [OF assms] obtain k where k: "k < length ws"
    and hit: "str_includes (toLowerCase (join_space (contextWindow ws k))) q"
    and m: "m = \<lparr>match_text = join_space (contextWindow ws k),
                  startTime = start (ws ! window_start k)\<rparr>"
    by auto
  have "match_text m = join_space (map word (spec_window ws k))"
    using m contextWindow_spec [OF k] by simp
  moreover have "str_includes (toLowerCase (match_text m)) q" using m hit by simp
  moreover have "startTime m = start (ws ! nat (max 0 (int k - 5)))"
    using m by (simp add: window_start_def)
  ultimately show ?thesis using k by blast
qed

lemma performSearch_members:
  assumes ps: "performSearch toLowerCase searchQuery files getTranscript = Some results"
    and r: "r \<in> set results" and m: "m \<in> set (matches r)"
  shows "\<exists>file response tr i.
           file \<in> set files \<and> file_status file = Some Completed \<and>
           audioId r = file_id file \<and>
           getTranscript (file_id file) = Inr response \<and>
           resp_status response = Completed \<and> transcript response = Some tr \<and>
           i < length (words tr) \<and>
           match_text m = join_space (map word (spec_window (words tr) i)) \<and>
           str_includes (toLowerCase (match_text m)) (toLowerCase searchQuery) \<and>
           startTime m = start (words tr ! nat (max 0 (int i - 5)))"
proof -
  let ?q = "toLowerCase searchQuery"
  let ?completed = "filter (\<lambda>f. file_status f = Some Completed) files"
  have res: "results = foldl (\<lambda>acc file. acc @ searchFile toLowerCase ?q file (getTranscript (file_id file)))
                         [] ?completed"
    using ps by (simp add: performSearch_def Let_def split: if_splits)
  from r obtain af where af: "af \<in> set ?completed"
    and rf: "r \<in> set (searchFile toLowerCase ?q af (getTranscript (file_id af)))"
    unfolding res foldl_append_members by auto
  from searchFile_members [OF rf] obtain response tr where
    resp: "getTranscript (file_id af) = Inr response" "transcript response = Some tr"
      "resp_status response = Completed" "audioId r = file_id af"
    and ms: "matches r = take 3 (scan toLowerCase (words tr) ?q 0 [])"
    by blast
  have "m \<in> set (scan toLowerCase (words tr) ?q 0 [])" using m ms by (auto dest: in_set_takeD)
  from scan_match_spec [OF this] obtain i where "i < length (words tr)"
    "match_text m = join_space (map word (spec_window (words tr) i))"
    "str_includes (toLowerCase (match_text m)) ?q"
    "startTime m = start (words tr ! nat (max 0 (int i - 5)))"
    by blast
  with af resp show ?thesis by auto
qed

lemma str_includes_iff: "str_includes s q \<longleftrightarrow> (\<exists>ps ss. s = ps @ q @ ss)"
  by (simp add: str_includes_def sublist_def)

lemma example_search:
  "performSearch ascii_toLowerCase (utf16 ''a'') [example_file] (\<lambda>audioId. Inr example_response) =
     Some [\<lparr>audioId = ''f1'', audioTitle = ''Interview'', audioUrl = ''/f1.mp3'',
            audioDuration = Some 12, audioSize = 1000,
            matches = [\<lparr>match_text = utf16 ''a b c d e f'', startTime = 0\<rparr>]\<rparr>]"
  by code_simp

lemma example_window:
  "map word (spec_window example_tokens 0) =
     map utf16 [''a'', ''b'', ''c'', ''d'', ''e'', ''f'']"
  by code_simp

lemma example_mixed_case:
  "scan ascii_toLowerCase mixed_tokens (ascii_toLowerCase (utf16 ''LO WOR'')) 0 [] =
     [\<lparr>match_text = utf16 ''Hello World Again'', startTime = 0\<rparr>]"
  by code_simp

lemma example_no_match:
  "scan ascii_toLowerCase mixed_tokens (ascii_toLowerCase (utf16 ''hello  world'')) 0 [] = []"
  by code_simp

lemma blank_query: "performSearch toLowerCase [32, 160, 9] files getTranscript = None"
  by (simp add: performSearch_def trim_def is_space_def)

section \<open>Claims about the search\<close>

text \<open>
  Claim C2, as stated: after a match at index \<open>i\<close> the next tested index is
  \<open>i + 5\<close>. The body adds 5 and the loop header adds 1 more: on twelve tokens
  \<open>x\<close> and the query \<open>x\<close> the window at 0 matches and the loop goes on at 6,
  giving windows that start at tokens 0 and 1; going on at 5 would give windows
  that start at tokens 0, 0 and 6.
\<close>

theorem scan_skip_counterexample:
  "str_includes (ascii_toLowerCase (join_space (contextWindow repeated_tokens 0))) (utf16 ''x'') \<and>
   fst (scan_body ascii_toLowerCase repeated_tokens (utf16 ''x'') 0 []) + 1 = 6 \<and>
   fst (scan_body ascii_toLowerCase repeated_tokens (utf16 ''x'') 0 []) + 1 \<noteq> 0 + 5 \<and>
   map startTime (scan ascii_toLowerCase repeated_tokens (utf16 ''x'') 0 []) = [0, 1] \<and>
   map startTime (scan ascii_toLowerCase repeated_tokens (utf16 ''x'') (0 + 5)
      (snd (scan_body ascii_toLowerCase repeated_tokens (utf16 ''x'') 0 [])))
     = [0, 0, 6]"
  by code_simp

text \<open>
  Claim C2, amended: whenever the context window at token index \<open>i\<close> matches the
  query, the match is recorded and the scan goes on at index \<open>i + 6\<close> (the body's
  \<open>i += 5\<close> followed by the loop's \<open>i++\<close>); when it does not match, the scan
  goes on at \<open>i + 1\<close>. This holds for every word list and every query.
\<close>

theorem scan_skip_six:
  "i < length ws \<Longrightarrow>
   fst (scan_body toLowerCase ws q i ms) + 1 =
     (if str_includes (toLowerCase (join_space (contextWindow ws i))) q then i + 6 else i + 1) \<and>
   scan toLowerCase ws q i ms =
     (if str_includes (toLowerCase (join_space (contextWindow ws i))) q
      then scan toLowerCase ws q (i + 6)
             (ms @ [\<lparr>match_text = join_space (contextWindow ws i),
                      startTime = start (ws ! window_start i)\<rparr>])
      else scan toLowerCase ws q (i + 1) ms)"
  by (simp add: scan_unfold) (simp add: scan_body_def Let_def)

theorem scan_skip_six_witness:
  "0 < length repeated_tokens \<and>
   str_includes (ascii_toLowerCase (join_space (contextWindow repeated_tokens 0))) (utf16 ''x'') \<and>
   fst (scan_body ascii_toLowerCase repeated_tokens (utf16 ''x'') 0 []) + 1 = 6 \<and>
   scan ascii_toLowerCase repeated_tokens (utf16 ''x'') 0 [] =
     scan ascii_toLowerCase repeated_tokens (utf16 ''x'') 6
       [\<lparr>match_text = join_space (contextWindow repeated_tokens 0),
         startTime = start (repeated_tokens ! window_start 0)\<rparr>]"
proof -
  have h: "0 < length repeated_tokens" by (simp add: repeated_tokens_def)
  have m: "str_includes (ascii_toLowerCase (join_space (contextWindow repeated_tokens 0)))
      (utf16 ''x'')"
    by code_simp
  from scan_skip_six [OF h, of ascii_toLowerCase "utf16 ''x''" "[]"] m h show ?thesis by simp
qed

text \<open>
  Claim C6. For every word list and query, and whatever the platform's
  lower-casing function is: at a tested index \<open>i\<close> a match is recorded exactly
  when the query occurs as a contiguous substring of the lower-cased single-space
  join of the token texts from \<open>max(0, i-5)\<close> to \<open>min(len-1, i+5)\<close> inclusive
  (at most 11 tokens), with that join as its text and the start of token
  \<open>max(0, i-5)\<close> as its start time. Every match that performSearch returns comes
  from a completed file with a completed transcript and has this form for the
  lower-cased query; a query of white space only (no-break space included) is
  not searched. For the twelve tokens \<open>a\<close> .. \<open>l\<close> and the query \<open>a\<close> the one
  match is the window of tokens 0 to 5 with start time 0; the query \<open>LO WOR\<close> is
  found inside \<open>Hello World Again\<close>, and \<open>hello  world\<close> with two spaces is not.
\<close>

theorem search_window_contract:
  "(\<forall>i < length ws.
      length (spec_window ws i) \<le> 11 \<and>
      snd (scan_body toLowerCase ws q i ms) =
        (if \<exists>ps ss. toLowerCase (join_space (map word (spec_window ws i))) = ps @ q @ ss
         then ms @ [\<lparr>match_text = join_space (map word (spec_window ws i)),
                     startTime = start (ws ! nat (max 0 (int i - 5)))\<rparr>]
         else ms)) \<and>
   (\<forall>results r m.
      performSearch toLowerCase searchQuery files getTranscript = Some results \<longrightarrow>
      r \<in> set results \<longrightarrow> m \<in> set (matches r) \<longrightarrow>
      (\<exists>file response tr i.
         file \<in> set files \<and> file_status file = Some Completed \<and>
         audioId r = file_id file \<and>
         getTranscript (file_id file) = Inr response \<and>
         resp_status response = Completed \<and> transcript response = Some tr \<and>
         i < length (words tr) \<and>
         match_text m = join_space (map word (spec_window (words tr) i)) \<and>
         (\<exists>ps ss. toLowerCase (match_text m) = ps @ toLowerCase searchQuery @ ss) \<and>
         startTime m = start (words tr ! nat (max 0 (int i - 5))))) \<and>
   performSearch toLowerCase [32, 160, 9] files getTranscript = None \<and>
   performSearch ascii_toLowerCase (utf16 ''a'') [example_file] (\<lambda>audioId. Inr example_response) =
     Some [\<lparr>audioId = ''f1'', audioTitle = ''Interview'', audioUrl = ''/f1.mp3'',
            audioDuration = Some 12, audioSize = 1000,
            matches = [\<lparr>match_text = utf16 ''a b c d e f'', startTime = 0\<rparr>]\<rparr>] \<and>
   map word (spec_window example_tokens 0) =
     map utf16 [''a'', ''b'', ''c'', ''d'', ''e'', ''f''] \<and>
   scan ascii_toLowerCase mixed_tokens (ascii_toLowerCase (utf16 ''LO WOR'')) 0 [] =
     [\<lparr>match_text = utf16 ''Hello World Again'', startTime = 0\<rparr>] \<and>
   scan ascii_toLowerCase mixed_tokens (ascii_toLowerCase (utf16 ''hello  world'')) 0 [] = []"
proof (intro conjI allI impI)
  fix i assume "i < length ws"
  then show "snd (scan_body toLowerCase ws q i ms) =
        (if \<exists>ps ss. toLowerCase (join_space (map word (spec_window ws i))) = ps @ q @ ss
         then ms @ [\<lparr>match_text = join_space (map word (spec_window ws i)),
                     startTime = start (ws ! nat (max 0 (int i - 5)))\<rparr>]
         else ms)"
    using scan_body_spec [of i ws toLowerCase q ms] by (simp add: str_includes_iff)
next
  fix i
  show "length (spec_window ws i) \<le> 11" by (rule spec_window_size)
next
  fix results r m
  assume "performSearch toLowerCase searchQuery files getTranscript = Some results"
    "r \<in> set results" "m \<in> set (matches r)"
  from performSearch_members [OF this]
  show "\<exists>file response tr i.
         file \<in> set files \<and> file_status file = Some Completed \<and>
         audioId r = file_id file \<and>
         getTranscript (file_id file) = Inr response \<and>
         resp_status response = Completed \<and> transcript response = Some tr \<and>
         i < length (words tr) \<and>
         match_text m = join_space (map word (spec_window (words tr) i)) \<and>
         (\<exists>ps ss. toLowerCase (match_text m) = ps @ toLowerCase searchQuery @ ss) \<and>
         startTime m = start (words tr ! nat (max 0 (int i - 5)))"
    unfolding str_includes_iff .
next
  show "performSearch toLowerCase [32, 160, 9] files getTranscript = None"
    by (rule blank_query)
next
  show "performSearch ascii_toLowerCase (utf16 ''a'') [example_file]
      (\<lambda>audioId. Inr example_response) =
     Some [\<lparr>audioId = ''f1'', audioTitle = ''Interview'', audioUrl = ''/f1.mp3'',
            audioDuration = Some 12, audioSize = 1000,
            matches = [\<lparr>match_text = utf16 ''a b c d e f'', startTime = 0\<rparr>]\<rparr>]"
    by (rule example_search)
next
  show "map word (spec_window example_tokens 0) =
     map utf16 [''a'', ''b'', ''c'', ''d'', ''e'', ''f'']"
    by (rule example_window)
next
  show "scan ascii_toLowerCase mixed_tokens (ascii_toLowerCase (utf16 ''LO WOR'')) 0 [] =
     [\<lparr>match_text = utf16 ''Hello World Again'', startTime = 0\<rparr>]"
    by (rule example_mixed_case)
next
  show "scan ascii_toLowerCase mixed_tokens (ascii_toLowerCase (utf16 ''hello  world'')) 0 [] = []"
    by (rule example_no_match)
qed

theorem search_window_contract_witness:
  "0 < length mixed_tokens \<and>
   (\<exists>ps ss. ascii_toLowerCase (join_space (map word (spec_window mixed_tokens 0)))
              = ps @ utf16 ''lo wor'' @ ss) \<and>
   snd (scan_body ascii_toLowerCase mixed_tokens (utf16 ''lo wor'') 0 []) =
     [\<lparr>match_text = utf16 ''Hello World Again'', startTime = 0\<rparr>] \<and>
   performSearch ascii_toLowerCase (utf16 ''a'') [example_file] (\<lambda>audioId. Inr example_response)
     = Some [example_result] \<and>
   example_result \<in> set [example_result] \<and> example_match \<in> set (matches example_result) \<and>
   (\<exists>file response tr i.
      file \<in> set [example_file] \<and> file_status file = Some Completed \<and>
      audioId example_result = file_id file \<and>
      (Inr example_response :: api_error + TranscriptResponse) = Inr response \<and>
      resp_status response = Completed \<and> transcript response = Some tr \<and>
      i < length (words tr) \<and>
      match_text example_match = join_space (map word (spec_window (words tr) i)) \<and>
      (\<exists>ps ss. ascii_toLowerCase (match_text example_match)
                 = ps @ ascii_toLowerCase (utf16 ''a'') @ ss) \<and>
      startTime example_match = start (words tr ! nat (max 0 (int i - 5))))"
proof -
  note T = search_window_contract [where ws = mixed_tokens and q = "utf16 ''lo wor''"
      and ms = "[]" and toLowerCase = ascii_toLowerCase
      and searchQuery = "utf16 ''a''" and files = "[example_file]"
      and getTranscript = "\<lambda>audioId. Inr example_response"]
  have h: "0 < length mixed_tokens" by (simp add: mixed_tokens_def)
  have "str_includes (ascii_toLowerCase (join_space (map word (spec_window mixed_tokens 0))))
      (utf16 ''lo wor'')"
    by code_simp
  then have c: "\<exists>ps ss. ascii_toLowerCase (join_space (map word (spec_window mixed_tokens 0)))
              = ps @ utf16 ''lo wor'' @ ss"
    by (simp add: str_includes_iff)
  have v: "join_space (map word (spec_window mixed_tokens 0)) = utf16 ''Hello World Again''"
    by code_simp
  have s0: "start (mixed_tokens ! nat (max 0 (int 0 - 5))) = 0"
    by (simp add: mixed_tokens_def tok_def)
  from T h have "snd (scan_body ascii_toLowerCase mixed_tokens (utf16 ''lo wor'') 0 []) =
        (if \<exists>ps ss. ascii_toLowerCase (join_space (map word (spec_window mixed_tokens 0)))
              = ps @ utf16 ''lo wor'' @ ss
         then [] @ [\<lparr>match_text = join_space (map word (spec_window mixed_tokens 0)),
                     startTime = start (mixed_tokens ! nat (max 0 (int 0 - 5)))\<rparr>]
         else [])"
    by blast
  then have A: "snd (scan_body ascii_toLowerCase mixed_tokens (utf16 ''lo wor'') 0 []) =
      [\<lparr>match_text = utf16 ''Hello World Again'', startTime = 0\<rparr>]"
    using c v s0 by simp
  from T have P: "performSearch ascii_toLowerCase (utf16 ''a'') [example_file]
      (\<lambda>audioId. Inr example_response) = Some [example_result]"
    by (simp add: example_result_def example_match_def)
  have r: "example_result \<in> set [example_result]" by simp
  have m: "example_match \<in> set (matches example_result)" by (simp add: example_result_def)
  from T have "\<forall>results r m.
      performSearch ascii_toLowerCase (utf16 ''a'') [example_file]
        (\<lambda>audioId. Inr example_response) = Some results \<longrightarrow>
      r \<in> set results \<longrightarrow> m \<in> set (matches r) \<longrightarrow>
      (\<exists>file response tr i.
         file \<in> set [example_file] \<and> file_status file = Some Completed \<and>
         audioId r = file_id file \<and>
         (Inr example_response :: api_error + TranscriptResponse) = Inr response \<and>
         resp_status response = Completed \<and> transcript response = Some tr \<and>
         i < length (words tr) \<and>
         match_text m = join_space (map word (spec_window (words tr) i)) \<and>
         (\<exists>ps ss. ascii_toLowerCase (match_text m)
                    = ps @ ascii_toLowerCase (utf16 ''a'') @ ss) \<and>
         startTime m = start (words tr ! nat (max 0 (int i - 5))))"
    by blast
  from this [rule_format, OF P r m] h c A P r m show ?thesis by blast
qed

section \<open>Facts about the player page\<close>

lemma clearInterval_fields [simp]:
  "audio (clearInterval h s) = audio s"
  "transcriptWords (clearInterval h s) = transcriptWords s"
  "transcriptStatus (clearInterval h s) = transcriptStatus s"
  "pollIntervalRef (clearInterval h s) = pollIntervalRef s"
  "nextTimer (clearInterval h s) = nextTimer s"
  "inflight (clearInterval h s) = inflight s"
  "retrying (clearInterval h s) = retrying s"
  "mounted (clearInterval h s) = mounted s"
  "timers (clearInterval h s) = filter (\<lambda>t. fst t \<noteq> h) (timers s)"
  by (simp_all add: clearInterval_def)

lemma handles_update [simp]:
  "handles (s\<lparr>pollIntervalRef := r\<rparr>) = handles s"
  "handles (s\<lparr>audio := a\<rparr>) = handles s"
  "handles (s\<lparr>transcriptStatus := st\<rparr>) = handles s"
  "handles (s\<lparr>transcriptWords := ws\<rparr>) = handles s"
  "handles (s\<lparr>inflight := n\<rparr>) = handles s"
  "handles (s\<lparr>retrying := rs\<rparr>) = handles s"
  "handles (s\<lparr>mounted := b\<rparr>) = handles s"
  by (simp_all add: handles_def)

lemma handles_clearInterval [simp]: "handles (clearInterval h s) = handles s - {h}"
  by (auto simp: handles_def)

lemma setter_fields [simp]:
  "pollIntervalRef (setAudio a s) = pollIntervalRef s"
  "pollIntervalRef (setTranscriptStatus st s) = pollIntervalRef s"
  "pollIntervalRef (setTranscriptWords ws s) = pollIntervalRef s"
  "timers (setAudio a s) = timers s"
  "timers (setTranscriptStatus st s) = timers s"
  "timers (setTranscriptWords ws s) = timers s"
  "nextTimer (setAudio a s) = nextTimer s"
  "nextTimer (setTranscriptStatus st s) = nextTimer s"
  "nextTimer (setTranscriptWords ws s) = nextTimer s"
  "inflight (setAudio a s) = inflight s"
  "inflight (setTranscriptStatus st s) = inflight s"
  "inflight (setTranscriptWords ws s) = inflight s"
  "retrying (setAudio a s) = retrying s"
  "retrying (setTranscriptStatus st s) = retrying s"
  "retrying (setTranscriptWords ws s) = retrying s"
  "mounted (setAudio a s) = mounted s"
  "mounted (setTranscriptStatus st s) = mounted s"
  "mounted (setTranscriptWords ws s) = mounted s"
  "handles (setAudio a s) = handles s"
  "handles (setTranscriptStatus st s) = handles s"
  "handles (setTranscriptWords ws s) = handles s"
  by (simp_all add: setAudio_def setTranscriptStatus_def setTranscriptWords_def)

lemma setter_status [simp]:
  "transcriptStatus (setAudio a s) = transcriptStatus s"
  "transcriptStatus (setTranscriptWords ws s) = transcriptStatus s"
  "transcriptStatus (setTranscriptStatus st s) = (if mounted s then st else transcriptStatus s)"
  by (simp_all add: setAudio_def setTranscriptStatus_def setTranscriptWords_def)

lemma setter_words [simp]:
  "transcriptWords (setAudio a s) = transcriptWords s"
  "transcriptWords (setTranscriptStatus st s) = transcriptWords s"
  "transcriptWords (setTranscriptWords ws s) = (if mounted s then ws else transcriptWords s)"
  by (simp_all add: setAudio_def setTranscriptStatus_def setTranscriptWords_def)

lemma startPolling_fields [simp]:
  "audio (startPolling a s) = audio s"
  "transcriptWords (startPolling a s) = transcriptWords s"
  "transcriptStatus (startPolling a s) = transcriptStatus s"
  "pollIntervalRef (startPolling a s) = Some (nextTimer s)"
  "nextTimer (startPolling a s) = Suc (nextTimer s)"
  "inflight (startPolling a s) = inflight s"
  "retrying (startPolling a s) = retrying s"
  "mounted (startPolling a s) = mounted s"
  by (simp_all add: startPolling_def setInterval_def Let_def split: option.splits)

lemma timers_startPolling:
  "timers (startPolling a s) =
     (case pollIntervalRef s of Some h \<Rightarrow> filter (\<lambda>t. fst t \<noteq> h) (timers s) | None \<Rightarrow> timers s)
       @ [(nextTimer s, a)]"
  by (simp add: startPolling_def setInterval_def Let_def split: option.splits)

lemma handles_startPolling:
  "handles (startPolling a s) = (handles s - set_option (pollIntervalRef s)) \<union> {nextTimer s}"
  by (auto simp: handles_def timers_startPolling split: option.splits)

lemma loadTranscript_fields [simp]:
  "pollIntervalRef (snd (loadTranscript res s)) = pollIntervalRef s"
  "timers (snd (loadTranscript res s)) = timers s"
  "nextTimer (snd (loadTranscript res s)) = nextTimer s"
  "inflight (snd (loadTranscript res s)) = inflight s"
  "retrying (snd (loadTranscript res s)) = retrying s"
  "mounted (snd (loadTranscript res s)) = mounted s"
  "handles (snd (loadTranscript res s)) = handles s"
  by (simp_all add: loadTranscript_def Let_def split: sum.splits option.splits)

lemma loadTranscript_status:
  "transcriptStatus (snd (loadTranscript res s)) =
     (case res of Inl err \<Rightarrow> transcriptStatus s
      | Inr r \<Rightarrow> if mounted s then resp_status r else transcriptStatus s)"
  "fst (loadTranscript res s) = (case res of Inl err \<Rightarrow> None | Inr r \<Rightarrow> Some (resp_status r))"
  by (simp_all add: loadTranscript_def Let_def split: sum.splits option.splits)

lemma loadTranscript_words:
  "transcriptWords (snd (loadTranscript res s)) =
     (case res of Inl err \<Rightarrow> transcriptWords s
      | Inr r \<Rightarrow> (case transcript r of
                   Some tr \<Rightarrow> if mounted s then words tr else transcriptWords s
                 | None \<Rightarrow> transcriptWords s))"
  by (simp add: loadTranscript_def Let_def split: sum.splits option.splits)

lemma tick_resume_fields [simp]:
  "nextTimer (tick_resume res s) = nextTimer s"
  "inflight (tick_resume res s) = inflight s"
  "retrying (tick_resume res s) = retrying s"
  "mounted (tick_resume res s) = mounted s"
  by (simp_all add: tick_resume_def split_beta Let_def split: option.splits)

lemma tick_resume_status:
  "transcriptStatus (tick_resume res s) =
     (case res of Inl err \<Rightarrow> transcriptStatus s
      | Inr r \<Rightarrow> if mounted s then resp_status r else transcriptStatus s)"
  by (simp add: tick_resume_def split_beta loadTranscript_status split: option.splits sum.splits)

lemma tick_resume_words:
  "transcriptWords (tick_resume res s) =
     (case res of Inl err \<Rightarrow> transcriptWords s
      | Inr r \<Rightarrow> (case transcript r of
                   Some tr \<Rightarrow> if mounted s then words tr else transcriptWords s
                 | None \<Rightarrow> transcriptWords s))"
  by (simp add: tick_resume_def split_beta loadTranscript_words split: option.splits sum.splits)

lemma tick_resume_terminal:
  assumes "resp_status r = Completed \<or> resp_status r = Failed"
  shows "pollIntervalRef (tick_resume (Inr r) s) = None"
    and "handles (tick_resume (Inr r) s) = handles s - set_option (pollIntervalRef s)"
  using assms
  by (auto simp: tick_resume_def split_beta loadTranscript_status split: option.splits)

lemma tick_resume_handles_subset: "handles (tick_resume res s) \<subseteq> handles s"
  by (auto simp: tick_resume_def split_beta split: option.splits if_splits)

lemma tick_resume_ref:
  "pollIntervalRef (tick_resume res s) = None \<and>
     handles (tick_resume res s) = handles s - set_option (pollIntervalRef s) \<or>
   pollIntervalRef (tick_resume res s) = pollIntervalRef s \<and> handles (tick_resume res s) = handles s"
  by (auto simp: tick_resume_def split_beta split: option.splits if_splits)

lemma loadAudioFile_status:
  "transcriptStatus (loadAudioFile a res s) =
     (case res of Inl err \<Rightarrow> transcriptStatus s
      | Inr r \<Rightarrow> if mounted s then resp_status r else transcriptStatus s)"
  by (simp add: loadAudioFile_def split_beta loadTranscript_status split: sum.splits)

lemma loadAudioFile_words:
  "transcriptWords (loadAudioFile a res s) =
     (case res of Inl err \<Rightarrow> transcriptWords s
      | Inr r \<Rightarrow> (case transcript r of
                   Some tr \<Rightarrow> if mounted s then words tr else transcriptWords s
                 | None \<Rightarrow> transcriptWords s))"
  by (simp add: loadAudioFile_def split_beta loadTranscript_words split: sum.splits option.splits)

lemma loadAudioFile_fields [simp]:
  "mounted (loadAudioFile a res s) = mounted s"
  "retrying (loadAudioFile a res s) = retrying s"
  by (simp_all add: loadAudioFile_def split_beta)

lemma handleRetry_status:
  "transcriptStatus (handleRetryTranscription a res s) =
     (case res of Inl err \<Rightarrow> transcriptStatus s
      | Inr ok \<Rightarrow> if mounted s then Processing else transcriptStatus s)"
  by (simp add: handleRetryTranscription_def split: sum.splits)

lemma handleRetry_words:
  "transcriptWords (handleRetryTranscription a res s) =
     (case res of Inl err \<Rightarrow> transcriptWords s
      | Inr ok \<Rightarrow> if mounted s then [] else transcriptWords s)"
  by (simp add: handleRetryTranscription_def split: sum.splits)

lemma handleRetry_fields [simp]:
  "mounted (handleRetryTranscription a res s) = mounted s"
  "retrying (handleRetryTranscription a res s) = retrying s"
  by (simp_all add: handleRetryTranscription_def split: sum.splits)

lemma cleanup_fields [simp]:
  "audio (cleanup s) = audio s"
  "transcriptWords (cleanup s) = transcriptWords s"
  "transcriptStatus (cleanup s) = transcriptStatus s"
  "pollIntervalRef (cleanup s) = pollIntervalRef s"
  "nextTimer (cleanup s) = nextTimer s"
  "inflight (cleanup s) = inflight s"
  "retrying (cleanup s) = retrying s"
  "mounted (cleanup s) = mounted s"
  "handles (cleanup s) = handles s - set_option (pollIntervalRef s)"
  by (simp_all add: cleanup_def split: option.splits)

lemma unmount_fields [simp]:
  "audio (unmount s) = audio s"
  "transcriptWords (unmount s) = transcriptWords s"
  "transcriptStatus (unmount s) = transcriptStatus s"
  "pollIntervalRef (unmount s) = pollIntervalRef s"
  "nextTimer (unmount s) = nextTimer s"
  "inflight (unmount s) = inflight s"
  "retrying (unmount s) = retrying s"
  "mounted (unmount s) = False"
  "handles (unmount s) = handles s - set_option (pollIntervalRef s)"
  by (simp_all add: unmount_def)

lemma tick_fire_fields [simp]:
  "audio (tick_fire h s) = audio s"
  "transcriptWords (tick_fire h s) = transcriptWords s"
  "transcriptStatus (tick_fire h s) = transcriptStatus s"
  "pollIntervalRef (tick_fire h s) = pollIntervalRef s"
  "nextTimer (tick_fire h s) = nextTimer s"
  "timers (tick_fire h s) = timers s"
  "retrying (tick_fire h s) = retrying s"
  "mounted (tick_fire h s) = mounted s"
  "handles (tick_fire h s) = handles s"
  by (simp_all add: tick_fire_def handles_def)

lemma retry_click_fields [simp]:
  "transcriptWords (retry_click s) = transcriptWords s"
  "transcriptStatus (retry_click s) = transcriptStatus s"
  "pollIntervalRef (retry_click s) = pollIntervalRef s"
  "nextTimer (retry_click s) = nextTimer s"
  "timers (retry_click s) = timers s"
  "mounted (retry_click s) = mounted s"
  "handles (retry_click s) = handles s"
  by (simp_all add: retry_click_def handles_def split: option.splits)

lemma offers_retry_render: "offers_retry (render s t) \<longleftrightarrow> transcriptStatus s = Failed"
  by (simp add: render_def TranscriptView_def)

lemma step_status:
  "transcriptStatus (step e s) =
     (case e of
        Load a (Inr r) \<Rightarrow> if mounted s then resp_status r else transcriptStatus s
      | Resolve (Inr r) \<Rightarrow>
          if mounted s \<and> 0 < inflight s then resp_status r else transcriptStatus s
      | RetrySettle k (Inr ok) \<Rightarrow>
          if mounted s \<and> k < length (retrying s) then Processing else transcriptStatus s
      | _ \<Rightarrow> transcriptStatus s)"
  by (cases e)
     (auto simp: loadAudioFile_status tick_resume_status handleRetry_status
           split: sum.splits)

lemma step_words:
  "transcriptWords (step e s) =
     (case e of
        Load a (Inr r) \<Rightarrow>
          (case transcript r of
             Some tr \<Rightarrow> if mounted s then words tr else transcriptWords s
           | None \<Rightarrow> transcriptWords s)
      | Resolve (Inr r) \<Rightarrow>
          (case transcript r of
             Some tr \<Rightarrow> if mounted s \<and> 0 < inflight s then words tr else transcriptWords s
           | None \<Rightarrow> transcriptWords s)
      | RetrySettle k (Inr ok) \<Rightarrow>
          if mounted s \<and> k < length (retrying s) then [] else transcriptWords s
      | _ \<Rightarrow> transcriptWords s)"
  by (cases e)
     (auto simp: loadAudioFile_words tick_resume_words handleRetry_words
           split: sum.splits option.splits)

lemma step_mounted: "mounted (step e s) = (mounted s \<and> e \<noteq> Unmount)"
  by (cases e) auto

lemma step_retrying:
  "retrying (step e s) =
     (case e of
        RetryClick \<Rightarrow>
          if mounted s \<and> transcriptStatus s = Failed
          then (case audio s of Some a \<Rightarrow> retrying s @ [a] | None \<Rightarrow> retrying s)
          else retrying s
      | RetrySettle k res \<Rightarrow>
          if k < length (retrying s) then take k (retrying s) @ drop (Suc k) (retrying s)
          else retrying s
      | _ \<Rightarrow> retrying s)"
  by (cases e) (auto simp: offers_retry_render retry_click_def split: option.splits)

lemma wf_initial: "wf_page initial_page"
  by (simp add: wf_page_def initial_page_def handles_def)

lemma wf_startPolling: "wf_page s \<Longrightarrow> wf_page (startPolling a s)"
  by (auto simp: wf_page_def handles_startPolling)

lemma wf_cong:
  "handles s' = handles s \<Longrightarrow> pollIntervalRef s' = pollIntervalRef s \<Longrightarrow>
   nextTimer s' = nextTimer s \<Longrightarrow> wf_page s \<Longrightarrow> wf_page s'"
  by (simp add: wf_page_def)

lemma wf_loadTranscript: "wf_page s \<Longrightarrow> wf_page (snd (loadTranscript res s))"
  by (rule wf_cong [of _ s]) simp_all

lemma wf_tick_resume: "wf_page s \<Longrightarrow> wf_page (tick_resume res s)"
  using tick_resume_ref [of res s] tick_resume_handles_subset [of res s]
  by (auto simp: wf_page_def)

lemma wf_step: "wf_page s \<Longrightarrow> wf_page (step e s)"
proof (cases e)
  case (Load a res)
  assume wf: "wf_page s"
  have "wf_page (setAudio (Some a) s)" by (rule wf_cong [OF _ _ _ wf]) simp_all
  then have "wf_page (snd (loadTranscript res (setAudio (Some a) s)))" by (rule wf_loadTranscript)
  then show ?thesis using Load by (simp add: loadAudioFile_def split_beta wf_startPolling)
next
  case (Fire h)
  assume wf: "wf_page s"
  have "wf_page (tick_fire h s)" by (rule wf_cong [OF _ _ _ wf]) simp_all
  then show ?thesis using Fire by simp
next
  case (Resolve res)
  assume wf: "wf_page s"
  have "wf_page (s\<lparr>inflight := inflight s - 1\<rparr>)"
    by (rule wf_cong [OF _ _ _ wf]) simp_all
  then show ?thesis using Resolve wf by (simp add: wf_tick_resume)
next
  case RetryClick
  assume wf: "wf_page s"
  have "wf_page (retry_click s)" by (rule wf_cong [OF _ _ _ wf]) simp_all
  then show ?thesis using RetryClick wf by simp
next
  case (RetrySettle k res)
  assume wf: "wf_page s"
  let ?s = "s\<lparr>retrying := take k (retrying s) @ drop (Suc k) (retrying s)\<rparr>"
  have "wf_page ?s" by (rule wf_cong [OF _ _ _ wf]) simp_all
  then have "wf_page (setTranscriptWords [] (setTranscriptStatus Processing ?s))"
    by (rule wf_cong [rotated -1]) simp_all
  then have "wf_page (handleRetryTranscription (retrying s ! k) res ?s)"
    using \<open>wf_page ?s\<close>
    by (simp add: handleRetryTranscription_def wf_startPolling split: sum.splits)
  then show ?thesis using RetrySettle wf by simp
next
  case Unmount
  assume "wf_page s"
  then show ?thesis using Unmount by (auto simp: wf_page_def)
qed

lemma run_snoc: "run (es @ [e]) s = step e (run es s)"
  by (simp add: run_def)

lemma run_Cons: "run (e # es) s = run es (step e s)"
  by (simp add: run_def)

lemma wf_run: "wf_page s \<Longrightarrow> wf_page (run es s)"
  by (induction es arbitrary: s) (simp_all add: run_def wf_step)

lemma step_timers:
  "handles (step e s) \<subseteq> handles s \<union> {nextTimer s} \<and> nextTimer s \<le> nextTimer (step e s)"
proof (cases e)
  case (Load a res)
  then show ?thesis
    by (auto simp: loadAudioFile_def split_beta handles_startPolling)
next
  case (Fire h)
  then show ?thesis by auto
next
  case (Resolve res)
  then show ?thesis using tick_resume_handles_subset [of res "s\<lparr>inflight := inflight s - 1\<rparr>"]
    by auto
next
  case RetryClick
  then show ?thesis by auto
next
  case (RetrySettle k res)
  then show ?thesis
    by (auto simp: handleRetryTranscription_def handles_startPolling split: sum.splits)
next
  case Unmount
  then show ?thesis by auto
qed

lemma stopped_step:
  assumes "h < nextTimer s" and "h \<notin> handles s"
  shows "h < nextTimer (step e s) \<and> h \<notin> handles (step e s)"
  using assms step_timers [of e s] by auto

lemma stopped_run:
  "h < nextTimer s \<Longrightarrow> h \<notin> handles s \<Longrightarrow> h < nextTimer (run es s) \<and> h \<notin> handles (run es s)"
proof (induction es arbitrary: s)
  case Nil
  then show ?case by (simp add: run_def)
next
  case (Cons e es)
  from stopped_step [OF Cons.prems, of e]
  show ?case unfolding run_Cons by (intro Cons.IH) simp_all
qed

lemma unmounted_step:
  "\<not> mounted s \<Longrightarrow>
   \<not> mounted (step e s) \<and> transcriptStatus (step e s) = transcriptStatus s \<and>
   transcriptWords (step e s) = transcriptWords s"
  by (simp add: step_mounted step_status step_words split: event.splits sum.splits option.splits)

lemma unmounted_run:
  "\<not> mounted s \<Longrightarrow>
   \<not> mounted (run es s) \<and> transcriptStatus (run es s) = transcriptStatus s \<and>
   transcriptWords (run es s) = transcriptWords s"
proof (induction es arbitrary: s)
  case Nil
  then show ?case by (simp add: run_def)
next
  case (Cons e es)
  from unmounted_step [OF Cons.prems, of e] Cons.IH [of "step e s"]
  show ?case unfolding run_Cons by simp
qed

lemma rendered_render:
  "rendered_words (render s t) = (if transcriptStatus s = Completed then transcriptWords s else [])"
  by (cases "transcriptStatus s") (auto simp: render_def TranscriptView_def)

lemma not_completed_step:
  "transcriptStatus s \<noteq> Completed \<Longrightarrow> observed_status e \<noteq> Some Completed
     \<Longrightarrow> transcriptStatus (step e s) \<noteq> Completed"
  by (cases e)
     (auto simp: loadAudioFile_status tick_resume_status handleRetry_status
           split: sum.splits if_splits)

lemma not_completed_run:
  "transcriptStatus s \<noteq> Completed \<Longrightarrow> \<forall>e \<in> set es. observed_status e \<noteq> Some Completed
     \<Longrightarrow> transcriptStatus (run es s) \<noteq> Completed"
proof (induction es arbitrary: s)
  case Nil
  then show ?case by (simp add: run_def)
next
  case (Cons e es)
  have "transcriptStatus (step e s) \<noteq> Completed"
    using Cons.prems by (intro not_completed_step) simp_all
  then show ?case unfolding run_Cons using Cons.prems by (intro Cons.IH) simp_all
qed

lemma words_empty_step:
  "transcriptWords s = [] \<Longrightarrow> observed_status e \<noteq> Some Completed \<Longrightarrow> obeys_contract e
     \<Longrightarrow> transcriptWords (step e s) = []"
  by (cases e)
     (auto simp: loadAudioFile_words tick_resume_words handleRetry_words
           split: sum.splits option.splits if_splits)

lemma words_empty_run:
  "transcriptWords s = [] \<Longrightarrow> \<forall>e \<in> set es. observed_status e \<noteq> Some Completed
     \<Longrightarrow> \<forall>e \<in> set es. obeys_contract e \<Longrightarrow> transcriptWords (run es s) = []"
proof (induction es arbitrary: s)
  case Nil
  then show ?case by (simp add: run_def)
next
  case (Cons e es)
  have "transcriptWords (step e s) = []"
    using Cons.prems by (intro words_empty_step) simp_all
  then show ?case unfolding run_Cons using Cons.prems by (intro Cons.IH) simp_all
qed

section \<open>Claims about the transcript view and the player page\<close>

text \<open>
  Claim C9. The transcript view renders the words only when the status is
  completed (and there is at least one word); for the statuses uploaded,
  processing and failed it renders a status panel and no word, whatever the word
  list holds. In particular this holds in every state the player page reaches
  from its initial state.
\<close>

theorem tokens_visible_only_completed:
  "(shows_transcript (TranscriptView ws t st r) \<longleftrightarrow> st = Completed \<and> ws \<noteq> []) \<and>
   rendered_words (TranscriptView ws t st r) = (if st = Completed then ws else []) \<and>
   (\<forall>es. shows_transcript (render (run es initial_page) t) \<longrightarrow>
         transcriptStatus (run es initial_page) = Completed)"
proof -
  have view: "shows_transcript (TranscriptView ws' t' st' r') \<longleftrightarrow> st' = Completed \<and> ws' \<noteq> []"
    for ws' t' st' r'
    by (cases st') (simp_all add: TranscriptView_def)
  have "rendered_words (TranscriptView ws t st r) = (if st = Completed then ws else [])"
    by (cases st) (simp_all add: TranscriptView_def)
  then show ?thesis by (simp add: view render_def)
qed

theorem tokens_visible_only_completed_witness:
  "shows_transcript (render (run [Load ''f1'' (Inr completed_response)] initial_page) 0) \<and>
   transcriptStatus (run [Load ''f1'' (Inr completed_response)] initial_page) = Completed"
proof -
  have h: "shows_transcript (render (run [Load ''f1'' (Inr completed_response)] initial_page) 0)"
    by code_simp
  from tokens_visible_only_completed [where t = 0]
  have "\<forall>es. shows_transcript (render (run es initial_page) 0) \<longrightarrow>
         transcriptStatus (run es initial_page) = Completed"
    by blast
  from this [rule_format, OF h] h show ?thesis by simp
qed

text \<open>
  Claim C10. Stopping a poll that is already stopped changes nothing: clearing a
  handle a second time, or clearing a handle that is not active, leaves the state
  as it is, and the unmount cleanup is idempotent and is the identity when the ref
  is null or its timer is no longer active. None of these functions has an error
  result.
\<close>

theorem stop_idempotent:
  "cleanup (cleanup s) = cleanup s \<and>
   clearInterval h (clearInterval h s) = clearInterval h s \<and>
   (h \<notin> handles s \<longrightarrow> clearInterval h s = s) \<and>
   ((\<forall>h'. pollIntervalRef s = Some h' \<longrightarrow> h' \<notin> handles s) \<longrightarrow> cleanup s = s)"
proof -
  have idem: "clearInterval k (clearInterval k s') = clearInterval k s'" for k s'
    by (simp add: clearInterval_def)
  have noop: "clearInterval k s' = s'" if "k \<notin> handles s'" for k s'
  proof -
    have "filter (\<lambda>t. fst t \<noteq> k) (timers s') = timers s'"
      using that by (auto simp: handles_def filter_id_conv)
    then show ?thesis by (simp add: clearInterval_def)
  qed
  have "cleanup (cleanup s) = cleanup s"
    by (cases "pollIntervalRef s") (simp_all add: cleanup_def idem)
  moreover have "(\<forall>h'. pollIntervalRef s = Some h' \<longrightarrow> h' \<notin> handles s) \<longrightarrow> cleanup s = s"
    by (cases "pollIntervalRef s") (simp_all add: cleanup_def noop)
  ultimately show ?thesis using idem noop by blast
qed

theorem stop_idempotent_witness:
  "pollIntervalRef unmounted_page = Some 1 \<and> 1 \<notin> handles unmounted_page \<and>
   cleanup unmounted_page = unmounted_page \<and> clearInterval 1 unmounted_page = unmounted_page"
proof -
  have r: "pollIntervalRef unmounted_page = Some 1" by code_simp
  have "timers unmounted_page = []" by code_simp
  then have h: "1 \<notin> handles unmounted_page" by (simp add: handles_def)
  from stop_idempotent [of unmounted_page 1] r h show ?thesis by simp
qed

text \<open>
  Claim C3, as stated: the status only moves along Uploaded to Processing,
  Processing to Completed or Failed, and Failed to Processing, and Completed has
  no outgoing transition. The page copies whatever status a response carries:
  opening a file whose transcript is already completed (or failed) takes the
  initial status Uploaded to Completed (or Failed) in one step. And the retry
  handler does not test the status after its request has settled: when the retry
  button is clicked twice on a failed page, the first retry succeeds and its poll
  observes Completed, the second retry then takes Completed to Processing.
\<close>

theorem status_transition_counterexample:
  "transcriptStatus initial_page = Uploaded \<and>
   transcriptStatus (step (Load ''f1'' (Inr completed_response)) initial_page) = Completed \<and>
   \<not> spec_transition Uploaded Completed \<and>
   transcriptStatus (step (Load ''f1'' (Inr failed_response)) initial_page) = Failed \<and>
   \<not> spec_transition Uploaded Failed \<and>
   transcriptStatus double_retry_page = Completed \<and>
   transcriptStatus (step (RetrySettle 0 (Inr ())) double_retry_page) = Processing \<and>
   \<not> spec_transition Completed Processing"
proof (intro conjI)
  show "transcriptStatus initial_page = Uploaded" by (simp add: initial_page_def)
  show "transcriptStatus (step (Load ''f1'' (Inr completed_response)) initial_page) = Completed"
    by code_simp
  show "transcriptStatus (step (Load ''f1'' (Inr failed_response)) initial_page) = Failed"
    by code_simp
  show "transcriptStatus double_retry_page = Completed" by code_simp
  show "transcriptStatus (step (RetrySettle 0 (Inr ())) double_retry_page) = Processing"
    by code_simp
qed simp_all

text \<open>
  Claim C3, amended: the displayed status is a mirror of the server's and is not
  restricted to a transition table. On a mounted page a settled status request
  (the first load, or a poll request in flight) sets it to the status in the
  response, whatever the current status, and a retry request that succeeds sets
  it to Processing, whatever the current status; every other event (a rejected
  request, a timer firing, a click, the unmount, anything after the unmount)
  leaves it unchanged. A retry request is started only by a click on a mounted
  page whose status is Failed and which has an audio file.
\<close>

theorem status_mirror:
  "transcriptStatus (step e s) =
     (case e of
        Load a (Inr r) \<Rightarrow> if mounted s then resp_status r else transcriptStatus s
      | Resolve (Inr r) \<Rightarrow>
          if mounted s \<and> 0 < inflight s then resp_status r else transcriptStatus s
      | RetrySettle k (Inr ok) \<Rightarrow>
          if mounted s \<and> k < length (retrying s) then Processing else transcriptStatus s
      | _ \<Rightarrow> transcriptStatus s) \<and>
   retrying (step e s) =
     (case e of
        RetryClick \<Rightarrow>
          if mounted s \<and> transcriptStatus s = Failed
          then (case audio s of Some a \<Rightarrow> retrying s @ [a] | None \<Rightarrow> retrying s)
          else retrying s
      | RetrySettle k res \<Rightarrow>
          if k < length (retrying s) then take k (retrying s) @ drop (Suc k) (retrying s)
          else retrying s
      | _ \<Rightarrow> retrying s)"
  using step_status [of e s] step_retrying [of e s] by (rule conjI)

theorem status_mirror_witness:
  "mounted failed_page \<and> transcriptStatus failed_page = Failed \<and>
   retrying (step RetryClick failed_page) = [''f1''] \<and>
   transcriptStatus (step (RetrySettle 0 (Inr ())) (step RetryClick failed_page)) = Processing \<and>
   transcriptStatus double_retry_page = Completed \<and>
   retrying (step RetryClick double_retry_page) = retrying double_retry_page \<and>
   transcriptStatus (step (RetrySettle 0 (Inr ())) double_retry_page) = Processing"
proof -
  have m: "mounted failed_page" by code_simp
  have st: "transcriptStatus failed_page = Failed" by code_simp
  have au: "audio failed_page = Some ''f1''" by code_simp
  have r0: "retrying failed_page = []" by code_simp
  have m2: "mounted double_retry_page" by code_simp
  have st2: "transcriptStatus double_retry_page = Completed" by code_simp
  have r2: "retrying double_retry_page = [''f1'']" by code_simp
  from status_mirror [of RetryClick failed_page] m st au r0
  have a: "retrying (step RetryClick failed_page) = [''f1'']" by simp
  have m1: "mounted (step RetryClick failed_page)" using m by (simp add: step_mounted)
  from status_mirror [of "RetrySettle 0 (Inr ())" "step RetryClick failed_page"] a m1
  have b: "transcriptStatus (step (RetrySettle 0 (Inr ())) (step RetryClick failed_page))
      = Processing"
    by simp
  from status_mirror [of RetryClick double_retry_page] st2
  have c: "retrying (step RetryClick double_retry_page) = retrying double_retry_page" by simp
  from status_mirror [of "RetrySettle 0 (Inr ())" double_retry_page] m2 r2
  have d: "transcriptStatus (step (RetrySettle 0 (Inr ())) double_retry_page) = Processing"
    by simp
  from m st a b st2 c d show ?thesis by simp
qed

text \<open>
  Claim C7. After a successful retry on the displayed (mounted) page the status is
  Processing and the word list is empty. From then on, as long as no settled
  status request carries the status Completed, the view shows no word and the
  status is not Completed; and when the responses obey the interface contract (a
  transcript only with status Completed) the stored word list itself stays empty.
\<close>

theorem retry_resets_tokens:
  assumes "mounted s"
  shows "transcriptStatus (handleRetryTranscription a (Inr ()) s) = Processing \<and>
         transcriptWords (handleRetryTranscription a (Inr ()) s) = [] \<and>
         (\<forall>es t. (\<forall>e \<in> set es. observed_status e \<noteq> Some Completed) \<longrightarrow>
            rendered_words (render (run es (handleRetryTranscription a (Inr ()) s)) t) = [] \<and>
            transcriptStatus (run es (handleRetryTranscription a (Inr ()) s)) \<noteq> Completed \<and>
            ((\<forall>e \<in> set es. obeys_contract e) \<longrightarrow>
               transcriptWords (run es (handleRetryTranscription a (Inr ()) s)) = []))"
proof -
  let ?s = "handleRetryTranscription a (Inr ()) s"
  have st: "transcriptStatus ?s = Processing" using assms by (simp add: handleRetry_status)
  have ws: "transcriptWords ?s = []" using assms by (simp add: handleRetry_words)
  have later: "rendered_words (render (run es ?s) t) = [] \<and>
      transcriptStatus (run es ?s) \<noteq> Completed \<and>
      ((\<forall>e \<in> set es. obeys_contract e) \<longrightarrow> transcriptWords (run es ?s) = [])"
    if quiet: "\<forall>e \<in> set es. observed_status e \<noteq> Some Completed" for es t
  proof -
    have nc: "transcriptStatus (run es ?s) \<noteq> Completed"
      using st quiet by (intro not_completed_run) simp_all
    then have "rendered_words (render (run es ?s) t) = []" by (simp add: rendered_render)
    moreover have "(\<forall>e \<in> set es. obeys_contract e) \<longrightarrow> transcriptWords (run es ?s) = []"
      using ws quiet by (auto intro: words_empty_run)
    ultimately show ?thesis using nc by blast
  qed
  from st ws later show ?thesis by blast
qed

theorem retry_resets_tokens_witness:
  "mounted words_failed_page \<and>
   map word (transcriptWords words_failed_page) = [utf16 ''a'', utf16 ''b''] \<and>
   list_all (\<lambda>e. observed_status e \<noteq> Some Completed)
     [Fire 2, Resolve (Inr processing_response), Fire 2, Resolve (Inr failed_response)] \<and>
   list_all obeys_contract
     [Fire 2, Resolve (Inr processing_response), Fire 2, Resolve (Inr failed_response)] \<and>
   transcriptStatus (handleRetryTranscription ''f1'' (Inr ()) words_failed_page) = Processing \<and>
   transcriptWords (handleRetryTranscription ''f1'' (Inr ()) words_failed_page) = [] \<and>
   inflight (run [Fire 2] (handleRetryTranscription ''f1'' (Inr ()) words_failed_page)) = 1 \<and>
   transcriptStatus
     (run [Fire 2, Resolve (Inr processing_response), Fire 2, Resolve (Inr failed_response)]
       (handleRetryTranscription ''f1'' (Inr ()) words_failed_page)) = Failed \<and>
   rendered_words (render
     (run [Fire 2, Resolve (Inr processing_response), Fire 2, Resolve (Inr failed_response)]
       (handleRetryTranscription ''f1'' (Inr ()) words_failed_page)) 0) = [] \<and>
   transcriptWords
     (run [Fire 2, Resolve (Inr processing_response), Fire 2, Resolve (Inr failed_response)]
       (handleRetryTranscription ''f1'' (Inr ()) words_failed_page)) = []"
proof -
  let ?es = "[Fire 2, Resolve (Inr processing_response), Fire 2, Resolve (Inr failed_response)]"
  let ?s = "handleRetryTranscription ''f1'' (Inr ()) words_failed_page"
  have mo: "mounted words_failed_page" by code_simp
  have w0: "map word (transcriptWords words_failed_page) = [utf16 ''a'', utf16 ''b'']"
    by code_simp
  have q: "\<forall>e \<in> set ?es. observed_status e \<noteq> Some Completed"
    by (simp add: processing_response_def failed_response_def)
  have c: "\<forall>e \<in> set ?es. obeys_contract e"
    by (simp add: processing_response_def failed_response_def)
  have fired: "inflight (run [Fire 2] ?s) = 1" by code_simp
  have applied: "transcriptStatus (run ?es ?s) = Failed" by code_simp
  note T = retry_resets_tokens [OF mo, of "''f1''"]
  from T have "(\<forall>e \<in> set ?es. observed_status e \<noteq> Some Completed) \<longrightarrow>
      rendered_words (render (run ?es ?s) 0) = [] \<and>
      ((\<forall>e \<in> set ?es. obeys_contract e) \<longrightarrow> transcriptWords (run ?es ?s) = [])"
    by blast
  with q c have "rendered_words (render (run ?es ?s) 0) = [] \<and> transcriptWords (run ?es ?s) = []"
    by blast
  with T mo w0 q c fired applied show ?thesis unfolding list_all_iff by blast
qed

text \<open>
  Claim C8, as stated: once a tick has observed a terminal status (or the poll is
  cancelled) no further observation is applied. The interval timer does not wait
  for the request of the previous tick: when timer 1 fires twice before either
  request settles and the first settled request reports Completed, the timer is
  cleared and the ref is null, yet the other request is still in flight on the
  mounted page, and when it settles with Processing the displayed status goes
  back to Processing.
\<close>

theorem poll_stale_observation_counterexample:
  "mounted stale_page \<and>
   transcriptStatus stale_page = Completed \<and> timers stale_page = [] \<and>
   pollIntervalRef stale_page = None \<and> inflight stale_page = 1 \<and>
   transcriptStatus (step (Resolve (Inr processing_response)) stale_page) = Processing \<and>
   transcriptStatus (step (Resolve (Inr processing_response)) stale_page)
     \<noteq> transcriptStatus stale_page"
  by code_simp

text \<open>
  Claim C8, amended: in every state the page reaches, a tick that observes
  Completed or Failed leaves no active timer and a null ref; the unmount leaves
  no active timer, and after it no observation is applied any more: the status
  and the words never change again; startPolling clears the previous timer and
  leaves exactly the new one active; and a handle that has been issued and is
  not active never becomes active again, so its timer never fires and issues no
  request. Only on a page that is still mounted (after a terminal observation
  or a superseding startPolling) is a request that was already in flight still
  applied when it settles.
\<close>

theorem poll_stop_clears_timer:
  assumes "s = run es0 initial_page"
  shows "(resp_status r = Completed \<or> resp_status r = Failed \<longrightarrow>
            timers (tick_resume (Inr r) s) = [] \<and> pollIntervalRef (tick_resume (Inr r) s) = None) \<and>
         timers (unmount s) = [] \<and>
         (\<forall>es. transcriptStatus (run es (unmount s)) = transcriptStatus s \<and>
               transcriptWords (run es (unmount s)) = transcriptWords s) \<and>
         timers (startPolling a s) = [(nextTimer s, a)] \<and>
         (\<forall>h. pollIntervalRef s = Some h \<longrightarrow>
            h < nextTimer (startPolling a s) \<and> h \<notin> handles (startPolling a s)) \<and>
         (\<forall>s' h es. h < nextTimer s' \<longrightarrow> h \<notin> handles s' \<longrightarrow>
            h \<notin> handles (run es s') \<and> step (Fire h) (run es s') = run es s') \<and>
         (\<forall>s' r'. mounted s' \<longrightarrow> 0 < inflight s' \<longrightarrow>
            transcriptStatus (step (Resolve (Inr r')) s') = resp_status r')"
proof -
  have wf: "wf_page s" unfolding assms by (rule wf_run [OF wf_initial])
  have empty: "timers s' = []" if "handles s' = {}" for s'
    using that by (simp add: handles_def)
  have sub: "handles s \<subseteq> set_option (pollIntervalRef s)" using wf by (simp add: wf_page_def)
  have fresh: "\<forall>h. pollIntervalRef s = Some h \<longrightarrow> h < nextTimer s"
    using wf by (simp add: wf_page_def)
  have terminal: "timers (tick_resume (Inr r) s) = [] \<and> pollIntervalRef (tick_resume (Inr r) s) = None"
    if "resp_status r = Completed \<or> resp_status r = Failed"
  proof -
    have "handles (tick_resume (Inr r) s) = {}"
      using tick_resume_terminal(2) [OF that, of s] sub by auto
    then have "timers (tick_resume (Inr r) s) = []" by (rule empty)
    then show ?thesis using tick_resume_terminal(1) [OF that, of s] by simp
  qed
  have "handles (unmount s) = {}" using sub by auto
  then have teardown: "timers (unmount s) = []" by (rule empty)
  have frozen: "transcriptStatus (run es (unmount s)) = transcriptStatus s \<and>
      transcriptWords (run es (unmount s)) = transcriptWords s" for es
    using unmounted_run [of "unmount s" es] by simp
  have "(case pollIntervalRef s of Some h \<Rightarrow> filter (\<lambda>t. fst t \<noteq> h) (timers s) | None \<Rightarrow> timers s) = []"
  proof (cases "pollIntervalRef s")
    case None
    then show ?thesis using sub by (simp add: empty)
  next
    case (Some h)
    then have "handles (clearInterval h s) = {}" using sub by auto
    then have "timers (clearInterval h s) = []" by (rule empty)
    then show ?thesis using Some by simp
  qed
  then have restart: "timers (startPolling a s) = [(nextTimer s, a)]"
    by (simp add: timers_startPolling)
  have old: "\<forall>h. pollIntervalRef s = Some h \<longrightarrow>
      h < nextTimer (startPolling a s) \<and> h \<notin> handles (startPolling a s)"
    using fresh by (auto simp: handles_startPolling)
  have never: "h \<notin> handles (run es s') \<and> step (Fire h) (run es s') = run es s'"
    if "h < nextTimer s'" "h \<notin> handles s'" for s' h es
    using stopped_run [OF that, of es] by (simp add: tick_fire_def)
  have applied: "transcriptStatus (step (Resolve (Inr r')) s') = resp_status r'"
    if "mounted s'" "0 < inflight s'" for s' r'
    using that by (simp add: tick_resume_status)
  from terminal teardown frozen restart old never applied show ?thesis by blast
qed

theorem poll_stop_clears_timer_witness:
  "firing_page = run [Load ''f1'' (Inr processing_response), Fire 1] initial_page \<and>
   timers firing_page = [(1, ''f1'')] \<and> pollIntervalRef firing_page = Some 1 \<and>
   inflight firing_page = 1 \<and> transcriptStatus firing_page = Processing \<and>
   resp_status completed_response = Completed \<and>
   timers (tick_resume (Inr completed_response) firing_page) = [] \<and>
   timers (unmount firing_page) = [] \<and>
   transcriptStatus (run [Resolve (Inr completed_response)] (unmount firing_page)) = Processing \<and>
   transcriptWords (run [Resolve (Inr completed_response)] (unmount firing_page)) = [] \<and>
   timers (startPolling ''f1'' firing_page) = [(2, ''f1'')] \<and>
   1 \<notin> handles (startPolling ''f1'' firing_page) \<and>
   1 < nextTimer (step (Resolve (Inr failed_response)) firing_page) \<and>
   1 \<notin> handles (step (Resolve (Inr failed_response)) firing_page) \<and>
   timers (run [RetryClick, RetrySettle 0 (Inr ())]
      (step (Resolve (Inr failed_response)) firing_page)) = [(2, ''f1'')] \<and>
   step (Fire 1) (run [RetryClick, RetrySettle 0 (Inr ())]
      (step (Resolve (Inr failed_response)) firing_page))
     = run [RetryClick, RetrySettle 0 (Inr ())]
        (step (Resolve (Inr failed_response)) firing_page) \<and>
   mounted stale_page \<and> 0 < inflight stale_page \<and>
   transcriptStatus (step (Resolve (Inr processing_response)) stale_page)
     = resp_status processing_response"
proof -
  let ?failed = "step (Resolve (Inr failed_response)) firing_page"
  let ?es = "[RetryClick, RetrySettle 0 (Inr ())]"
  have t1: "timers firing_page = [(1, ''f1'')]" by code_simp
  have p: "pollIntervalRef firing_page = Some 1" by code_simp
  have i1: "inflight firing_page = 1" by code_simp
  have st: "transcriptStatus firing_page = Processing" by code_simp
  have w: "transcriptWords firing_page = []" by code_simp
  have nt: "nextTimer firing_page = 2" by code_simp
  have r: "resp_status completed_response = Completed" by (simp add: completed_response_def)
  have n: "1 < nextTimer ?failed" by code_simp
  have "timers ?failed = []" by code_simp
  then have h: "1 \<notin> handles ?failed" by (simp add: handles_def)
  have live: "timers (run ?es ?failed) = [(2, ''f1'')]" by code_simp
  have mo: "mounted stale_page" by code_simp
  have i: "0 < inflight stale_page" by code_simp
  note T = poll_stop_clears_timer [OF firing_page_def, of completed_response "''f1''"]
  from T r have a: "timers (tick_resume (Inr completed_response) firing_page) = []" by blast
  from T have b: "timers (unmount firing_page) = []" by blast
  from T have "\<forall>es. transcriptStatus (run es (unmount firing_page)) = transcriptStatus firing_page \<and>
      transcriptWords (run es (unmount firing_page)) = transcriptWords firing_page"
    by blast
  then have b2: "transcriptStatus (run [Resolve (Inr completed_response)] (unmount firing_page))
        = Processing \<and>
      transcriptWords (run [Resolve (Inr completed_response)] (unmount firing_page)) = []"
    using st w by simp
  from T have "timers (startPolling ''f1'' firing_page) = [(nextTimer firing_page, ''f1'')]"
    by blast
  then have c1: "timers (startPolling ''f1'' firing_page) = [(2, ''f1'')]" using nt by simp
  from T p have c2: "1 \<notin> handles (startPolling ''f1'' firing_page)" by blast
  from T have "\<forall>s' h es. h < nextTimer s' \<longrightarrow> h \<notin> handles s' \<longrightarrow>
      h \<notin> handles (run es s') \<and> step (Fire h) (run es s') = run es s'"
    by blast
  from this [rule_format, OF n h, of ?es]
  have d: "step (Fire 1) (run ?es ?failed) = run ?es ?failed" by blast
  from T have "\<forall>s' r'. mounted s' \<longrightarrow> 0 < inflight s' \<longrightarrow>
      transcriptStatus (step (Resolve (Inr r')) s') = resp_status r'"
    by blast
  from this [rule_format, OF mo i, of processing_response]
  have e: "transcriptStatus (step (Resolve (Inr processing_response)) stale_page)
      = resp_status processing_response" .
  from firing_page_def t1 p i1 st r a b b2 c1 c2 n h live d mo i e show ?thesis by blast
qed

section \<open>Facts about the upload handler\<close>














section \<open>Claims about the upload\<close>




end
